theory Spec2Isabelle
  imports Main "HOL-Library.Word"
begin

unbundle bit_operations_syntax

section \<open>Strings, characters and the C library\<close>

text \<open>
  \<open>CString\<close> is \<open>std::string\<close>: a sequence of bytes.  A position returned by
  \<open>find\<close> is \<open>Some k\<close>, and \<open>npos\<close> is \<open>None\<close>.
\<close>

type_synonym CString = string

definition CR :: char where
  "CR = CHR 0x0D"

definition LF :: char where
  "LF = CHR 0x0A"

definition CRLF :: CString where
  "CRLF = [CR, LF]"

definition char_code :: "char \<Rightarrow> nat" where
  "char_code c = of_char c"

text \<open>\<open>isspace\<close> in the C locale: space, \<open>\t \n \v \f \r\<close>.\<close>

definition isspace :: "char \<Rightarrow> bool" where
  "isspace c = (char_code c = 32 \<or> (9 \<le> char_code c \<and> char_code c \<le> 13))"

definition isdigit :: "char \<Rightarrow> bool" where
  "isdigit c = (48 \<le> char_code c \<and> char_code c \<le> 57)"

definition isxdigit :: "char \<Rightarrow> bool" where
  "isxdigit c = (isdigit c \<or> (97 \<le> char_code c \<and> char_code c \<le> 102) \<or> (65 \<le> char_code c \<and> char_code c \<le> 70))"

definition digitValue :: "char \<Rightarrow> nat" where
  "digitValue c =
     (if isdigit c then char_code c - 48
      else if 97 \<le> char_code c \<and> char_code c \<le> 102 then char_code c - 87
      else char_code c - 55)"

text \<open>
  A \<open>char\<close> is a signed byte: converted to \<open>int\<close>, the bytes from 0x80 on are
  negative.  \<open>tolower\<close> takes and returns that \<open>int\<close>; in the C locale only \<open>A\<close> to
  \<open>Z\<close> change.
\<close>

definition char_value :: "char \<Rightarrow> int" where
  "char_value c = (if char_code c < 128 then int (char_code c) else int (char_code c) - 256)"

definition tolower :: "int \<Rightarrow> int" where
  "tolower x = (if 65 \<le> x \<and> x \<le> 90 then x + 32 else x)"

text \<open>
  \<open>std::string::find(needle)\<close>: the first position at which \<open>needle\<close> occurs as a
  contiguous substring.
\<close>

fun str_find :: "CString \<Rightarrow> CString \<Rightarrow> nat option" where
  "str_find [] needle = (if needle = [] then Some 0 else None)"
| "str_find (c # cs) needle =
     (if take (length needle) (c # cs) = needle then Some 0
      else map_option Suc (str_find cs needle))"

text \<open>
  A \<open>const char*\<close> argument is read as a C string: it ends before the first NUL byte of
  the array it points to.
\<close>

definition c_str :: "char list \<Rightarrow> CString" where
  "c_str a = takeWhile (\<lambda>c. c \<noteq> CHR 0x00) a"

section \<open>CHTTPUtil::CaselessCmp\<close>

definition cmpEqual :: "char \<Rightarrow> char \<Rightarrow> bool" where
  "cmpEqual a b = (tolower (char_value a) = tolower (char_value b))"

definition cmpLess :: "char \<Rightarrow> char \<Rightarrow> bool" where
  "cmpLess a b = (tolower (char_value a) < tolower (char_value b))"

text \<open>\<open>std::lexicographical_compare\<close> with \<open>cmpLess\<close>.\<close>

fun CaselessCmp_less :: "CString \<Rightarrow> CString \<Rightarrow> bool" where
  "CaselessCmp_less [] [] = False"
| "CaselessCmp_less [] (b # bs) = True"
| "CaselessCmp_less (a # as) [] = False"
| "CaselessCmp_less (a # as) (b # bs) =
     (if cmpLess a b then True else if cmpLess b a then False else CaselessCmp_less as bs)"

definition CaselessCmp_equal :: "CString \<Rightarrow> CString \<Rightarrow> bool" where
  "CaselessCmp_equal a b = (\<not> (CaselessCmp_less a b \<or> CaselessCmp_less b a))"

section \<open>The request and its header index\<close>

text \<open>
  \<open>CHeaderMap\<close> is a \<open>std::map\<close> from header name to index whose comparator is
  \<open>CaselessCmp\<close>, so two names are the same key when neither is \<open>CaselessCmp_less\<close> than the
  other.  The map is only searched and inserted into, never iterated, so it is kept as the
  list of its entries in insertion order.
\<close>

type_synonym CHeaderMap = "(CString \<times> nat) list"

fun hfind :: "CHeaderMap \<Rightarrow> CString \<Rightarrow> nat option" where
  "hfind [] name = None"
| "hfind ((k, i) # m) name = (if CaselessCmp_equal k name then Some i else hfind m name)"

definition hcount :: "CHeaderMap \<Rightarrow> CString \<Rightarrow> nat" where
  "hcount m name = (case hfind m name of None \<Rightarrow> 0 | Some i \<Rightarrow> 1)"

definition hinsert :: "CHeaderMap \<Rightarrow> CString \<Rightarrow> nat \<Rightarrow> CHeaderMap" where
  "hinsert m name i = (case hfind m name of None \<Rightarrow> m @ [(name, i)] | Some j \<Rightarrow> m)"

record CHTTPRequest =
  m_method :: CString
  m_uri :: CString
  m_majorVersion :: int
  m_minorVersion :: int
  m_headers :: "CString list"
  m_headerIndexByName :: CHeaderMap
  m_body :: CString

definition newRequest :: CHTTPRequest where
  "newRequest = \<lparr>m_method = [], m_uri = [], m_majorVersion = 0, m_minorVersion = 0,
     m_headers = [], m_headerIndexByName = [], m_body = []\<rparr>"

text \<open>
  What a call can end with besides its result: \<open>throw XHTTP(status)\<close>, or a failed
  \<open>assert\<close>.
\<close>

datatype error = XHTTP nat | AssertFailed

section \<open>std::istringstream\<close>

text \<open>
  The string stream holds the characters not yet read and the state flags.  Exceptions are
  switched off (\<open>s.exceptions(std::ios::goodbit)\<close>), so a failed extraction only sets
  flags; \<open>!s\<close> is \<open>failbit\<close>.
\<close>

record istringstream =
  buf :: CString
  eofbit :: bool
  failbit :: bool

definition istringstream_of :: "CString \<Rightarrow> istringstream" where
  "istringstream_of str = \<lparr>buf = str, eofbit = False, failbit = False\<rparr>"

definition good :: "istringstream \<Rightarrow> bool" where
  "good s = (\<not> eofbit s \<and> \<not> failbit s)"

text \<open>\<open>s.str(x)\<close> replaces the buffer; the state flags stay as they are.\<close>

definition set_str :: "istringstream \<Rightarrow> CString \<Rightarrow> istringstream" where
  "set_str s x = s\<lparr>buf := x\<rparr>"

text \<open>
  The sentry every input function starts with: a stream that is not good fails; a
  formatted input function (\<open>skipws = True\<close>) first skips white space and fails at the
  end of the buffer.
\<close>

definition sentry :: "bool \<Rightarrow> istringstream \<Rightarrow> istringstream \<times> bool" where
  "sentry skipws s =
     (if \<not> good s then (s\<lparr>failbit := True\<rparr>, False)
      else if skipws then
        (let b = dropWhile isspace (buf s)
         in if b = [] then (s\<lparr>buf := [], eofbit := True, failbit := True\<rparr>, False)
            else (s\<lparr>buf := b\<rparr>, True))
      else (s, True))"

text \<open>\<open>s >> str\<close> for a string: a failed sentry leaves \<open>str\<close> as it was.\<close>

definition extract_string :: "istringstream \<Rightarrow> CString \<Rightarrow> CString \<times> istringstream" where
  "extract_string s old =
     (case sentry True s of
        (s1, False) \<Rightarrow> (old, s1)
      | (s1, True) \<Rightarrow>
          (let w = takeWhile (\<lambda>c. \<not> isspace c) (buf s1);
               r = dropWhile (\<lambda>c. \<not> isspace c) (buf s1)
           in (w, s1\<lparr>buf := r, eofbit := (r = [])\<rparr>)))"

text \<open>\<open>s.ignore(n)\<close>: the end of the buffer is noticed only when fewer than \<open>n\<close>
  characters were there.\<close>

definition ignore :: "nat \<Rightarrow> istringstream \<Rightarrow> istringstream" where
  "ignore n s =
     (case sentry False s of
        (s1, False) \<Rightarrow> s1
      | (s1, True) \<Rightarrow> s1\<lparr>buf := drop n (buf s1), eofbit := (length (buf s1) < n)\<rparr>)"

text \<open>\<open>s.get(c)\<close>: \<open>None\<close> when no character was stored.\<close>

definition get :: "istringstream \<Rightarrow> char option \<times> istringstream" where
  "get s =
     (case sentry False s of
        (s1, False) \<Rightarrow> (None, s1)
      | (s1, True) \<Rightarrow>
          (case buf s1 of
             [] \<Rightarrow> (None, s1\<lparr>eofbit := True, failbit := True\<rparr>)
           | c # r \<Rightarrow> (Some c, s1\<lparr>buf := r\<rparr>)))"

text \<open>
  \<open>std::getline(s, str, delim)\<close>: the delimiter is read and dropped; the call fails
  only if it read nothing at all.
\<close>

definition getline :: "istringstream \<Rightarrow> char \<Rightarrow> CString \<Rightarrow> CString \<times> istringstream" where
  "getline s delim old =
     (case sentry False s of
        (s1, False) \<Rightarrow> (old, s1)
      | (s1, True) \<Rightarrow>
          (let w = takeWhile (\<lambda>c. c \<noteq> delim) (buf s1);
               r = dropWhile (\<lambda>c. c \<noteq> delim) (buf s1)
           in if r = [] then (w, s1\<lparr>buf := [], eofbit := True, failbit := (w = [])\<rparr>)
              else (w, s1\<lparr>buf := tl r\<rparr>)))"

text \<open>The value of a digit string in a base, most significant digit first.\<close>

definition digitsValue :: "int \<Rightarrow> CString \<Rightarrow> int" where
  "digitsValue base ds = foldl (\<lambda>a c. a * base + int (digitValue c)) 0 ds"

text \<open>
  \<open>s >> n\<close> for a signed 32-bit integer in base 10: an optional sign, then digits.  No
  digit or a value out of range sets \<open>failbit\<close>; every caller throws then, and the value
  stored (zero, or the nearest bound) is never read.
\<close>

definition extract_SInt32 :: "istringstream \<Rightarrow> int \<times> istringstream" where
  "extract_SInt32 s =
     (case sentry True s of
        (s1, False) \<Rightarrow> (0, s1)
      | (s1, True) \<Rightarrow>
          (let b = buf s1;
               negative = (take 1 b = ''-'');
               b1 = (if take 1 b = ''-'' \<or> take 1 b = ''+'' then drop 1 b else b);
               ds = takeWhile isdigit b1;
               r = dropWhile isdigit b1;
               v = digitsValue 10 ds;
               s2 = s1\<lparr>buf := r, eofbit := (r = [])\<rparr>
           in if ds = [] then (0, s2\<lparr>failbit := True\<rparr>)
              else if negative \<and> v > 2 ^ 31 then (- (2 ^ 31), s2\<lparr>failbit := True\<rparr>)
              else if \<not> negative \<and> v > 2 ^ 31 - 1 then (2 ^ 31 - 1, s2\<lparr>failbit := True\<rparr>)
              else (if negative then - v else v, s2)))"

text \<open>
  \<open>s >> n\<close> for \<open>UInt32\<close> in base 10 or, after \<open>std::hex\<close>, 16: an optional sign, in
  base 16 an optional \<open>0x\<close>, then digits.  A value above \<open>2^32 - 1\<close> sets
  \<open>failbit\<close>; a minus sign negates modulo \<open>2^32\<close>.  The digits are summed as an
  unbounded integer, the result is the \<open>UInt32\<close> as a natural number.
\<close>

definition extract_UInt32 :: "int \<Rightarrow> istringstream \<Rightarrow> nat \<times> istringstream" where
  "extract_UInt32 base s =
     (case sentry True s of
        (s1, False) \<Rightarrow> (0, s1)
      | (s1, True) \<Rightarrow>
          (let b = buf s1;
               negative = (take 1 b = ''-'');
               b1 = (if take 1 b = ''-'' \<or> take 1 b = ''+'' then drop 1 b else b);
               b2 = (if base = 16 \<and> (take 2 b1 = ''0x'' \<or> take 2 b1 = ''0X'') then drop 2 b1 else b1);
               isd = (if base = 16 then isxdigit else isdigit);
               ds = takeWhile isd b2;
               r = dropWhile isd b2;
               v = digitsValue base ds;
               s2 = s1\<lparr>buf := r, eofbit := (r = [])\<rparr>
           in if ds = [] then (0, s2\<lparr>failbit := True\<rparr>)
              else if v > 2 ^ 32 - 1 then (nat (2 ^ 32 - 1), s2\<lparr>failbit := True\<rparr>)
              else (nat (if negative then (2 ^ 32 - v) mod 2 ^ 32 else v), s2)))"

section \<open>IInputStream\<close>

text \<open>
  The input stream is what its \<open>read\<close> calls will return, in order: a list of
  segments.  \<open>read(buffer, n)\<close> returns at most \<open>n\<close> bytes of the first segment and
  leaves the rest of it for the next call; on the exhausted stream, and on an empty
  segment, it returns 0 bytes.
\<close>

type_synonym IInputStream = "CString list"

fun stream_read :: "IInputStream \<Rightarrow> nat \<Rightarrow> CString \<times> IInputStream" where
  "stream_read [] n = ([], [])"
| "stream_read (seg # rest) n =
     (take n seg, if n < length seg then drop n seg # rest else rest)"

definition pending :: "IInputStream \<Rightarrow> nat" where
  "pending stream = sum_list (map (\<lambda>seg. Suc (length seg)) stream)"

lemma stream_read_pending:
  "(buffer, stream') = stream_read stream n \<Longrightarrow> buffer \<noteq> [] \<Longrightarrow> pending stream' < pending stream"
  by (cases stream) (auto simp: pending_def split: if_splits)

section \<open>CHTTPProtocol: reading lines and blocks\<close>

text \<open>
  \<open>readLine(stream, tmpBuffer)\<close> returns the line, and the stream and \<open>tmpBuffer\<close> as
  the call leaves them.
\<close>

function readLine :: "IInputStream \<Rightarrow> CString \<Rightarrow> CString \<times> IInputStream \<times> CString" where
  "readLine stream tmpBuffer =
     (case str_find tmpBuffer CRLF of
        Some newline \<Rightarrow> (take newline tmpBuffer, stream, drop (newline + 2) tmpBuffer)
      | None \<Rightarrow>
          (case stream_read stream 4096 of
             (buffer, stream') \<Rightarrow>
               if length buffer = 0 then (tmpBuffer, stream', [])
               else readLine stream' (tmpBuffer @ buffer)))"
  by pat_completeness auto
termination
  by (relation "measure (\<lambda>(stream, tmpBuffer). pending stream)")
    (auto dest: stream_read_pending)

declare readLine.simps [simp del]

text \<open>The loop of \<open>readBlock\<close> that reads what \<open>tmpBuffer\<close> did not hold.\<close>

function readBlock_loop :: "IInputStream \<Rightarrow> nat \<Rightarrow> CString \<Rightarrow> CString \<times> IInputStream" where
  "readBlock_loop stream numBytes data =
     (if numBytes > 0 then
        (case stream_read stream (if 4096 > numBytes then numBytes else 4096) of
           (buffer, stream') \<Rightarrow>
             if length buffer = 0 then (data, stream')
             else readBlock_loop stream' (numBytes - length buffer) (data @ buffer))
      else (data, stream))"
  by pat_completeness auto
termination
  by (relation "measure (\<lambda>(stream, numBytes, data). numBytes)") auto

declare readBlock_loop.simps [simp del]

definition readBlock ::
  "IInputStream \<Rightarrow> nat \<Rightarrow> CString \<Rightarrow> error + (CString \<times> IInputStream \<times> CString)" where
  "readBlock stream numBytes tmpBuffer =
     (if length tmpBuffer > 0 \<and> length tmpBuffer \<ge> numBytes then
        Inr (take numBytes tmpBuffer, stream, drop numBytes tmpBuffer)
      else
        (let data = tmpBuffer
         in if \<not> length data < numBytes then Inl AssertFailed
            else (case readBlock_loop stream (numBytes - length data) data of
                    (data', stream') \<Rightarrow> Inr (data', stream', []))))"

text \<open>\<open>readChunk\<close>: the size line in hexadecimal, the data, the line that ends it.\<close>

definition readChunk ::
  "IInputStream \<Rightarrow> CString \<Rightarrow> error + (CString \<times> IInputStream \<times> CString)" where
  "readChunk stream tmpBuffer =
     (case readLine stream tmpBuffer of
        (line, stream1, tmp1) \<Rightarrow>
          (case extract_UInt32 16 (istringstream_of line) of
             (chunkSize, s) \<Rightarrow>
               if failbit s then Inl (XHTTP 400)
               else if chunkSize = 0 then Inr ([], stream1, tmp1)
               else
                 (case readBlock stream1 chunkSize tmp1 of
                    Inl e \<Rightarrow> Inl e
                  | Inr (data, stream2, tmp2) \<Rightarrow>
                      if length data \<noteq> chunkSize then Inl (XHTTP 400)
                      else
                        (case readLine stream2 tmp2 of
                           (line', stream3, tmp3) \<Rightarrow>
                             if line' \<noteq> [] then Inl (XHTTP 400)
                             else Inr (data, stream3, tmp3)))))"

section \<open>CHTTPProtocol::isValidToken\<close>

text \<open>
  The array behind the string literal of \<open>isValidToken\<close>: the separators, then the
  control characters from \<open>\0\<close> on.  It is passed to \<open>find\<close> as a \<open>const char*\<close>.
\<close>

definition tokenSeparators :: "char list" where
  "tokenSeparators =
     ''()<>@,;:'' @ [CHR 0x5C, CHR 0x22] @ ''/[]?={} '' @
     [CHR 0x00, CHR 0x01, CHR 0x02, CHR 0x03, CHR 0x04, CHR 0x05, CHR 0x06, CHR 0x07,
      CHR 0x08, CHR 0x09, CHR 0x0A, CHR 0x0B, CHR 0x0C, CHR 0x0D, CHR 0x0E, CHR 0x0F,
      CHR 0x10, CHR 0x11, CHR 0x12, CHR 0x13, CHR 0x14, CHR 0x15, CHR 0x16, CHR 0x17,
      CHR 0x18, CHR 0x19, CHR 0x1A, CHR 0x1B, CHR 0x1C, CHR 0x1D, CHR 0x1E, CHR 0x1F,
      CHR 0x7F]"

definition isValidToken :: "CString \<Rightarrow> bool" where
  "isValidToken token = (str_find token (c_str tokenSeparators) = None)"

text \<open>
  Reading never adds input: the bytes a call returns were taken from \<open>tmpBuffer\<close> and
  the stream.  The loops below terminate by this measure.
\<close>

lemma str_find_bound: "str_find s needle = Some k \<Longrightarrow> k + length needle \<le> length s"
proof (induction s arbitrary: k)
  case Nil
  then show ?case by (simp split: if_splits)
next
  case (Cons c cs)
  show ?case
  proof (cases "take (length needle) (c # cs) = needle")
    case True
    then have "length (take (length needle) (c # cs)) = length needle"
      by simp
    then have "length needle \<le> length (c # cs)"
      by simp
    with True Cons.prems show ?thesis by simp
  next
    case False
    with Cons.prems obtain j where "str_find cs needle = Some j" and "k = Suc j"
      by auto
    with Cons.IH show ?thesis by fastforce
  qed
qed

lemma stream_read_le:
  "stream_read stream n = (buffer, stream') \<Longrightarrow> length buffer + pending stream' \<le> pending stream"
  by (cases stream) (auto simp: pending_def split: if_splits)

lemma readLine_le:
  "readLine stream tmpBuffer = (line, stream', tmp') \<Longrightarrow>
   length line + (length tmp' + pending stream') \<le> length tmpBuffer + pending stream"
proof (induction stream tmpBuffer arbitrary: line stream' tmp' rule: readLine.induct)
  case (1 stream tmpBuffer)
  show ?case
  proof (cases "str_find tmpBuffer CRLF")
    case (Some newline)
    then have "newline + 2 \<le> length tmpBuffer"
      using str_find_bound [of tmpBuffer CRLF newline] by (simp add: CRLF_def)
    with Some "1.prems" show ?thesis
      by (subst (asm) readLine.simps) auto
  next
    case None
    obtain buffer stream1 where rd: "stream_read stream 4096 = (buffer, stream1)"
      by (cases "stream_read stream 4096")
    note le = stream_read_le [OF rd]
    show ?thesis
    proof (cases "length buffer = 0")
      case True
      with None rd "1.prems" le show ?thesis
        by (subst (asm) readLine.simps) auto
    next
      case False
      with None rd "1.prems" have "readLine stream1 (tmpBuffer @ buffer) = (line, stream', tmp')"
        by (subst (asm) readLine.simps) auto
      from "1.IH" [OF None rd [symmetric] False this] le show ?thesis
        by simp
    qed
  qed
qed

lemma readBlock_loop_le:
  "readBlock_loop stream numBytes data = (data', stream') \<Longrightarrow>
   length data' + pending stream' \<le> length data + pending stream"
proof (induction stream numBytes data arbitrary: data' stream' rule: readBlock_loop.induct)
  case (1 stream numBytes data)
  show ?case
  proof (cases "numBytes > 0")
    case False
    with "1.prems" show ?thesis
      by (subst (asm) readBlock_loop.simps) auto
  next
    case True
    obtain buffer stream1 where
      rd: "stream_read stream (if 4096 > numBytes then numBytes else 4096) = (buffer, stream1)"
      by (cases "stream_read stream (if 4096 > numBytes then numBytes else 4096)")
    note le = stream_read_le [OF rd]
    show ?thesis
    proof (cases "length buffer = 0")
      case True
      with \<open>numBytes > 0\<close> rd "1.prems" le show ?thesis
        by (subst (asm) readBlock_loop.simps) auto
    next
      case False
      with \<open>numBytes > 0\<close> rd "1.prems"
      have "readBlock_loop stream1 (numBytes - length buffer) (data @ buffer) = (data', stream')"
        by (subst (asm) readBlock_loop.simps) auto
      from "1.IH" [OF \<open>numBytes > 0\<close> rd [symmetric] False this] le show ?thesis
        by simp
    qed
  qed
qed

lemma readBlock_le:
  "readBlock stream numBytes tmpBuffer = Inr (data, stream', tmp') \<Longrightarrow>
   length data + (length tmp' + pending stream') \<le> length tmpBuffer + pending stream"
  by (auto simp: readBlock_def Let_def split: if_splits prod.splits dest: readBlock_loop_le)


lemma extract_UInt32_empty: "failbit (snd (extract_UInt32 base (istringstream_of [])))"
  by (simp add: extract_UInt32_def istringstream_of_def sentry_def good_def)

lemma readChunk_less:
  assumes "readChunk stream tmpBuffer = Inr (chunk, stream', tmp')"
  shows "length chunk + (length tmp' + pending stream') < length tmpBuffer + pending stream"
proof -
  obtain line stream1 tmp1 where rl: "readLine stream tmpBuffer = (line, stream1, tmp1)"
    by (cases "readLine stream tmpBuffer")
  obtain chunkSize s where ex: "extract_UInt32 16 (istringstream_of line) = (chunkSize, s)"
    by (cases "extract_UInt32 16 (istringstream_of line)")
  from assms rl ex have nofail: "\<not> failbit s"
    by (auto simp: readChunk_def split: if_splits)
  have "line \<noteq> []"
  proof
    assume "line = []"
    with ex extract_UInt32_empty [of 16] nofail show False by simp
  qed
  with readLine_le [OF rl]
  have first: "length tmp1 + pending stream1 < length tmpBuffer + pending stream"
    by (cases line) auto
  show ?thesis
  proof (cases "chunkSize = 0")
    case True
    with assms rl ex nofail first show ?thesis
      by (auto simp: readChunk_def)
  next
    case False
    with assms rl ex nofail obtain data stream2 tmp2 where
      rb: "readBlock stream1 chunkSize tmp1 = Inr (data, stream2, tmp2)"
      by (auto simp: readChunk_def split: sum.splits)
    obtain line' stream3 tmp3 where rl2: "readLine stream2 tmp2 = (line', stream3, tmp3)"
      by (cases "readLine stream2 tmp2")
    from assms rl ex nofail False rb rl2
    have res: "chunk = data" "stream' = stream3" "tmp' = tmp3"
      by (auto simp: readChunk_def split: if_splits)
    from readBlock_le [OF rb] readLine_le [OF rl2] first res show ?thesis
      by simp
  qed
qed

section \<open>CHTTPProtocol::readHeaders\<close>

text \<open>
  The body of the loop of \<open>readHeaders\<close> for one non-empty line.  In the branch of a
  continuation line the source appends \<open>","\<close> to the last header and then evaluates
  \<open>request->m_headers.back() == line\<close>, a comparison whose result is dropped: the
  line itself is not appended.
\<close>

definition readHeaders_line :: "CHTTPRequest \<Rightarrow> bool \<Rightarrow> CString \<Rightarrow> error + CHTTPRequest" where
  "readHeaders_line request isFooter line =
     (if hd line = CHR '' '' \<or> hd line = CHR 0x09 then
        (if length (m_headers request) = 0 then Inl (XHTTP 400)
         else
           (let headers1 = (m_headers request)
                  [length (m_headers request) - 1 := last (m_headers request) @ '','']
            in Inr (request\<lparr>m_headers := headers1\<rparr>)))
      else
        (case getline (istringstream_of line) (CHR '':'') [] of
           (name, s1) \<Rightarrow>
             if failbit s1 \<or> \<not> isValidToken name then Inl (XHTTP 400)
             else
               (case getline s1 LF [] of
                  (value, s2) \<Rightarrow>
                    (case hfind (m_headerIndexByName request) name of
                       None \<Rightarrow>
                         Inr (request
                           \<lparr>m_headerIndexByName :=
                              hinsert (m_headerIndexByName request) name (length (m_headers request)),
                            m_headers := m_headers request @ [value]\<rparr>)
                     | Some i \<Rightarrow>
                         Inr (request
                           \<lparr>m_headers := (m_headers request)
                              [i := ((m_headers request) ! i @ '','') @ value]\<rparr>)))))"

function readHeaders_loop ::
  "CHTTPRequest \<Rightarrow> bool \<Rightarrow> CString \<Rightarrow> IInputStream \<Rightarrow> CString \<Rightarrow>
   error + (CHTTPRequest \<times> IInputStream \<times> CString)" where
  "readHeaders_loop request isFooter line stream tmpBuffer =
     (if line \<noteq> [] then
        (case readHeaders_line request isFooter line of
           Inl e \<Rightarrow> Inl e
         | Inr request' \<Rightarrow>
             (case readLine stream tmpBuffer of
                (line', stream', tmp') \<Rightarrow> readHeaders_loop request' isFooter line' stream' tmp'))
      else Inr (request, stream, tmpBuffer))"
  by pat_completeness auto
termination
proof (relation "measure (\<lambda>(request, isFooter, line, stream, tmpBuffer).
    length line + (length tmpBuffer + pending stream))", goal_cases)
  case 1
  show ?case by simp
next
  case (2 request isFooter line stream tmpBuffer request' line' rest stream' tmp')
  then have "readLine stream tmpBuffer = (line', stream', tmp')"
    by simp
  from readLine_le [OF this] \<open>line \<noteq> []\<close> show ?case
    by (cases line) auto
qed

declare readHeaders_loop.simps [simp del]

definition readHeaders ::
  "IInputStream \<Rightarrow> CHTTPRequest \<Rightarrow> bool \<Rightarrow> CString \<Rightarrow>
   error + (CHTTPRequest \<times> IInputStream \<times> CString)" where
  "readHeaders stream request isFooter tmpBuffer =
     (case readLine stream tmpBuffer of
        (line, stream', tmp') \<Rightarrow> readHeaders_loop request isFooter line stream' tmp')"

section \<open>CHTTPProtocol::readRequest\<close>

text \<open>
  The chunk loop: \<open>oldSize\<close> is a \<open>UInt32\<close>, so it holds the size of the body modulo
  \<open>2^32\<close>; the loop ends when the body's size equals it after a chunk was appended.
\<close>

function readChunks ::
  "CString \<Rightarrow> IInputStream \<Rightarrow> CString \<Rightarrow> error + (CString \<times> IInputStream \<times> CString)" where
  "readChunks body stream scratch =
     (let oldSize = int (length body) mod 2 ^ 32
      in case readChunk stream scratch of
           Inl e \<Rightarrow> Inl e
         | Inr (chunk, stream', scratch') \<Rightarrow>
             if int (length (body @ chunk)) \<noteq> oldSize then readChunks (body @ chunk) stream' scratch'
             else Inr (body @ chunk, stream', scratch'))"
  by pat_completeness auto
termination
proof (relation "measure (\<lambda>(body, stream, scratch). length scratch + pending stream)", goal_cases)
  case 1
  show ?case by simp
next
  case (2 body stream scratch oldSize x chunk rest stream' scratch')
  then have "readChunk stream scratch = Inr (chunk, stream', scratch')"
    by simp
  from readChunk_less [OF this] show ?case
    by simp
qed

declare readChunks.simps [simp del]


text \<open>
  The request line: \<open><method> <uri> <version>\<close>, then the version
  \<open>HTTP/<major>.<minor>\<close> read from the same string stream after \<open>s.str(version)\<close>.
  When the version is the last word of the line, with no white space after it, reading it
  reached the end of the buffer and set \<open>eofbit\<close>; \<open>str\<close> does not clear it, so
  \<open>ignore\<close> and the extractions after it fail and the line is rejected.
\<close>

definition parseRequestLine :: "CString \<Rightarrow> CHTTPRequest \<Rightarrow> error + CHTTPRequest" where
  "parseRequestLine line request =
     (case extract_string (istringstream_of line) (m_method request) of
        (method, s1) \<Rightarrow>
          (case extract_string s1 (m_uri request) of
             (uri, s2) \<Rightarrow>
               (case extract_string s2 [] of
                  (version, s3) \<Rightarrow>
                    if failbit s3 \<or> uri = [] \<or> str_find version ''HTTP/'' \<noteq> Some 0
                    then Inl (XHTTP 400)
                    else
                      (case extract_SInt32 (ignore 5 (set_str s3 version)) of
                         (major, s4) \<Rightarrow>
                           (case get s4 of
                              (dot, s5) \<Rightarrow>
                                (case extract_SInt32 s5 of
                                   (minor, s6) \<Rightarrow>
                                     if failbit s6 \<or> dot \<noteq> Some (CHR ''.'')
                                     then Inl (XHTTP 400)
                                     else Inr (request
                                       \<lparr>m_method := method, m_uri := uri,
                                        m_majorVersion := major,
                                        m_minorVersion := minor\<rparr>)))))))"

text \<open>The checks of \<open>readRequest\<close>, each the condition under which it throws 400.\<close>

definition invalidVersion :: "CHTTPRequest \<Rightarrow> bool" where
  "invalidVersion request = (m_majorVersion request < 1 \<or> m_minorVersion request < 0)"

definition hostMissing :: "CHTTPRequest \<Rightarrow> bool" where
  "hostMissing request =
     ((m_majorVersion request > 1 \<or>
       (m_majorVersion request = 1 \<and> m_minorVersion request \<ge> 1)) \<and>
      hcount (m_headerIndexByName request) ''Host'' = 0)"

definition bodyMismatch :: "CHTTPRequest \<Rightarrow> bool" where
  "bodyMismatch request =
     ((hcount (m_headerIndexByName request) ''Transfer-Encoding'' = 0 \<and>
       hcount (m_headerIndexByName request) ''Content-Length'' = 0) \<noteq>
      (m_method request = ''GET'' \<or> m_method request = ''HEAD''))"

text \<open>
  Reading the body.  An index found in \<open>m_headerIndexByName\<close> is a position of
  \<open>m_headers\<close>: it was the size of the list when the header was pushed.
\<close>

definition readBody ::
  "CHTTPRequest \<Rightarrow> IInputStream \<Rightarrow> CString \<Rightarrow> error + (CHTTPRequest \<times> IInputStream \<times> CString)" where
  "readBody request stream scratch =
     (case hfind (m_headerIndexByName request) ''Transfer-Encoding'' of
        Some index \<Rightarrow>
          if \<not> CaselessCmp_equal (m_headers request ! index) ''chunked'' then Inl (XHTTP 501)
          else
            (case readChunks (m_body request) stream scratch of
               Inl e \<Rightarrow> Inl e
             | Inr (body, stream1, scratch1) \<Rightarrow>
                 readHeaders stream1 (request\<lparr>m_body := body\<rparr>) True scratch1)
      | None \<Rightarrow>
          (case hfind (m_headerIndexByName request) ''Content-Length'' of
             Some index \<Rightarrow>
               (case extract_UInt32 10 (istringstream_of (m_headers request ! index)) of
                  (len, s) \<Rightarrow>
                    if failbit s then Inl (XHTTP 400)
                    else
                      (case readBlock stream len scratch of
                         Inl e \<Rightarrow> Inl e
                       | Inr (body, stream1, scratch1) \<Rightarrow>
                           if length body \<noteq> len then Inl (XHTTP 400)
                           else Inr (request\<lparr>m_body := body\<rparr>, stream1, scratch1)))
           | None \<Rightarrow> Inr (request, stream, scratch)))"

text \<open>Everything after the request line was read.\<close>

definition readRequest_line ::
  "CString \<Rightarrow> IInputStream \<Rightarrow> CString \<Rightarrow> error + (CHTTPRequest \<times> IInputStream \<times> CString)" where
  "readRequest_line line stream scratch =
     (case parseRequestLine line newRequest of
        Inl e \<Rightarrow> Inl e
      | Inr request \<Rightarrow>
          if \<not> isValidToken (m_method request) then Inl (XHTTP 400)
          else if invalidVersion request then Inl (XHTTP 400)
          else
            (case readHeaders stream request False scratch of
               Inl e \<Rightarrow> Inl e
             | Inr (request1, stream1, scratch1) \<Rightarrow>
                 if hostMissing request1 then Inl (XHTTP 400)
                 else if bodyMismatch request1 then Inl (XHTTP 400)
                 else readBody request1 stream1 scratch1))"

text \<open>
  \<open>do line = readLine(stream, scratch); while (line.empty())\<close>: on a stream that has
  ended this loop reads the empty line again and again, so it is a partial function and
  \<open>None\<close> is the run that never returns.
\<close>

partial_function (option) readRequest_skip ::
  "IInputStream \<Rightarrow> CString \<Rightarrow> (CString \<times> IInputStream \<times> CString) option" where
  "readRequest_skip stream scratch =
     (case readLine stream scratch of
        (line, stream', scratch') \<Rightarrow>
          if line = [] then readRequest_skip stream' scratch'
          else Some (line, stream', scratch'))"

text \<open>
  \<open>readRequest\<close> returns the request (with the stream as it leaves it) or throws;
  \<open>scratch\<close> is local and starts empty.
\<close>

definition readRequest :: "IInputStream \<Rightarrow> (error + (CHTTPRequest \<times> IInputStream)) option" where
  "readRequest stream =
     (case readRequest_skip stream [] of
        None \<Rightarrow> None
      | Some (line, stream', scratch') \<Rightarrow>
          (case readRequest_line line stream' scratch' of
             Inl e \<Rightarrow> Some (Inl e)
           | Inr (request, stream'', scratch'') \<Rightarrow> Some (Inr (request, stream''))))"


section \<open>Running readRequest\<close>

lemma readRequest_skip_found:
  "readLine stream scratch = (line, stream', scratch') \<Longrightarrow> line \<noteq> [] \<Longrightarrow>
   readRequest_skip stream scratch = Some (line, stream', scratch')"
  by (subst readRequest_skip.simps) simp

lemma readRequest_eval:
  "readLine stream [] = (line, stream', scratch') \<Longrightarrow> line \<noteq> [] \<Longrightarrow>
   readRequest_line line stream' scratch' = res \<Longrightarrow>
   readRequest stream =
     Some (case res of Inl e \<Rightarrow> Inl e
           | Inr (request, stream'', scratch'') \<Rightarrow> Inr (request, stream''))"
  by (simp add: readRequest_def readRequest_skip_found split: sum.splits)

text \<open>
  Two things the runs below allow for: a request line is parsed only with white space
  after the version, and a header value keeps the space after the colon, so that
  \<open>Transfer-Encoding: chunked\<close> has the value \<open>" chunked"\<close>, which is not
  \<open>chunked\<close>, and is answered with 501.
\<close>

lemma parseRequestLine_version_last:
  "parseRequestLine ''GET / HTTP/1.0'' newRequest = Inl (XHTTP 400)"
  by code_simp

lemma readRequest_line_chunked_after_space:
  "readRequest_line ''POST / HTTP/1.0 ''
     [''Transfer-Encoding: chunked'' @ CRLF @ CRLF @ ''0'' @ CRLF @ CRLF] [] = Inl (XHTTP 501)"
  by code_simp

text \<open>
  The header index stays within the header list: an index in the map is a position of
  \<open>m_headers\<close>, which is what the reads \<open>m_headers[index->second]\<close> rely on.
\<close>

definition indexInRange :: "CHTTPRequest \<Rightarrow> bool" where
  "indexInRange request =
     (\<forall>(name, i) \<in> set (m_headerIndexByName request). i < length (m_headers request))"

lemma hfind_in_set: "hfind m name = Some i \<Longrightarrow> \<exists>k. (k, i) \<in> set m"
  by (induction m) (auto split: if_splits)

lemma readHeaders_line_indexInRange:
  assumes "readHeaders_line request isFooter line = Inr request'" and "indexInRange request"
  shows "indexInRange request'"
proof (cases "hd line = CHR '' '' \<or> hd line = CHR 0x09")
  case True
  with assms show ?thesis
    by (auto simp: readHeaders_line_def indexInRange_def Let_def split: if_splits)
next
  case False
  obtain name s1 where n: "getline (istringstream_of line) (CHR '':'') [] = (name, s1)"
    by (cases "getline (istringstream_of line) (CHR '':'') []")
  obtain v s2 where v: "getline s1 LF [] = (v, s2)"
    by (cases "getline s1 LF []")
  from assms False n v show ?thesis
    by (cases "hfind (m_headerIndexByName request) name")
      (auto simp: readHeaders_line_def indexInRange_def hinsert_def less_Suc_eq
        split: if_splits)
qed

lemma readHeaders_loop_indexInRange:
  "readHeaders_loop request isFooter line stream tmpBuffer = Inr (request', stream', tmp') \<Longrightarrow>
   indexInRange request \<Longrightarrow> indexInRange request'"
proof (induction request isFooter line stream tmpBuffer rule: readHeaders_loop.induct)
  case (1 request isFooter line stream tmpBuffer)
  show ?case
  proof (cases "line \<noteq> []")
    case False
    with "1.prems" show ?thesis
      by (subst (asm) readHeaders_loop.simps) simp
  next
    case True
    with "1.prems"(1) obtain request1 where
      l: "readHeaders_line request isFooter line = Inr request1"
      by (subst (asm) readHeaders_loop.simps) (auto split: sum.splits)
    obtain line1 stream1 tmp1 where r: "readLine stream tmpBuffer = (line1, stream1, tmp1)"
      by (cases "readLine stream tmpBuffer")
    from True l r "1.prems"(1)
    have "readHeaders_loop request1 isFooter line1 stream1 tmp1 = Inr (request', stream', tmp')"
      by (subst (asm) readHeaders_loop.simps) simp
    from "1.IH" [OF True l r [symmetric] refl this]
      readHeaders_line_indexInRange [OF l "1.prems"(2)]
    show ?thesis by simp
  qed
qed

lemma readHeaders_indexInRange:
  "readHeaders stream request isFooter tmpBuffer = Inr (request', stream', tmp') \<Longrightarrow>
   indexInRange request \<Longrightarrow> indexInRange request'"
  by (auto simp: readHeaders_def split: prod.splits dest: readHeaders_loop_indexInRange)

lemma newRequest_indexInRange: "indexInRange newRequest"
  by (simp add: indexInRange_def newRequest_def)

text \<open>
  What \<open>isValidToken\<close> computes: the separator string has 18 characters, and a token is
  found invalid only if it holds that string whole, so every shorter token is valid.
\<close>

lemma isValidToken_short: "length token < 18 \<Longrightarrow> isValidToken token"
proof -
  assume short: "length token < 18"
  have len: "length (c_str tokenSeparators) = 18"
    by (simp add: c_str_def tokenSeparators_def)
  show "isValidToken token"
  proof (cases "str_find token (c_str tokenSeparators)")
    case None
    then show ?thesis by (simp add: isValidToken_def)
  next
    case (Some k)
    from str_find_bound [OF Some] len short show ?thesis by simp
  qed
qed

text \<open>A continuation line before any header fails with 400.\<close>

lemma readHeaders_line_continuation_first:
  "m_headers request = [] \<Longrightarrow> c = CHR '' '' \<or> c = CHR 0x09 \<Longrightarrow>
   readHeaders_line request isFooter (c # rest) = Inl (XHTTP 400)"
  by (auto simp: readHeaders_line_def)

section \<open>Claims about the request parser\<close>

text \<open>
  C3, which the code does not meet.  The claim: a method string with a control character is an invalid token,
  so the request fails with 400.  \<open>isValidToken\<close> searches the token for the separator
  string as one substring (\<open>find\<close>, where \<open>find_first_of\<close> was meant), and the
  string passed ends at its first NUL, before the control characters.  The method
  \<open>P\<close>, 0x01, \<open>ST\<close> is therefore a valid token and the request is returned.
\<close>

theorem C3_control_character_accepted:
  "isValidToken (''P'' @ [CHR 0x01] @ ''ST'') \<and>
   readRequest [''P'' @ [CHR 0x01] @ ''ST / HTTP/1.0 '' @ CRLF @
       ''Content-Length: 1'' @ CRLF @ CRLF @ ''x''] =
     Some (Inr (\<lparr>m_method = ''P'' @ [CHR 0x01] @ ''ST'', m_uri = ''/'',
       m_majorVersion = 1, m_minorVersion = 0, m_headers = ['' 1''],
       m_headerIndexByName = [(''Content-Length'', 0)], m_body = ''x''\<rparr>, []))"
  (is "?valid \<and> readRequest [?inp] = Some (Inr (?r, []))")
proof
  show ?valid
    by code_simp
next
  have 1: "readLine [?inp] [] = (''P'' @ [CHR 0x01] @ ''ST / HTTP/1.0 '', [], drop 18 ?inp)"
    by code_simp
  have 2: "readRequest_line (''P'' @ [CHR 0x01] @ ''ST / HTTP/1.0 '') [] (drop 18 ?inp) =
      Inr (?r, [], [])"
    by code_simp
  show "readRequest [?inp] = Some (Inr (?r, []))"
    using readRequest_eval [OF 1 _ 2] by simp
qed

text \<open>
  C2, which the code does not meet.  The claim: a continuation line is joined to the previous header's value
  by one comma, \<open>X-A: foo\<close> then \<open>  bar\<close> giving \<open>foo,bar\<close>.  The code appends
  the comma and then compares the header with the line (\<open>==\<close> where \<open>+=\<close> was
  meant), so the continuation is dropped; the stored value also keeps the space after the
  colon.  The header list ends up holding \<open>" foo,"\<close>.
\<close>

theorem C2_continuation_dropped:
  "readHeaders [''X-A: foo'' @ CRLF @ ''  bar'' @ CRLF @ CRLF] newRequest False [] =
     Inr (newRequest\<lparr>m_headers := ['' foo,''], m_headerIndexByName := [(''X-A'', 0)]\<rparr>,
          [], [])"
  by code_simp

text \<open>
  C10.  A header line that starts with the colon has the empty name;
  \<open>isValidToken\<close> is true of the empty string, and the line is stored under the empty
  name (here when the request has no header of that name yet) instead of failing with 400.
  The stored value is the rest of the line, up to a line feed if it holds one.
\<close>

theorem C10_empty_header_name_stored:
  "isValidToken [] \<and>
   (hfind (m_headerIndexByName request) [] = None \<longrightarrow>
    readHeaders_line request isFooter (CHR '':'' # v) =
      Inr (request
        \<lparr>m_headerIndexByName := m_headerIndexByName request @ [([], length (m_headers request))],
         m_headers := m_headers request @ [takeWhile (\<lambda>c. c \<noteq> LF) v]\<rparr>))"
proof
  show "isValidToken []"
    by (simp add: isValidToken_def c_str_def tokenSeparators_def)
next
  have valid: "isValidToken []"
    by (simp add: isValidToken_def c_str_def tokenSeparators_def)
  have name: "getline (istringstream_of (CHR '':'' # v)) (CHR '':'') [] =
      ([], \<lparr>buf = v, eofbit = False, failbit = False\<rparr>)"
    by (simp add: getline_def sentry_def good_def istringstream_of_def)
  have val: "fst (getline \<lparr>buf = v, eofbit = False, failbit = False\<rparr> LF []) =
      takeWhile (\<lambda>c. c \<noteq> LF) v"
    by (simp add: getline_def sentry_def good_def Let_def)
  show "hfind (m_headerIndexByName request) [] = None \<longrightarrow>
    readHeaders_line request isFooter (CHR '':'' # v) =
      Inr (request
        \<lparr>m_headerIndexByName := m_headerIndexByName request @ [([], length (m_headers request))],
         m_headers := m_headers request @ [takeWhile (\<lambda>c. c \<noteq> LF) v]\<rparr>)"
    using val
    by (cases "getline \<lparr>buf = v, eofbit = False, failbit = False\<rparr> LF []")
      (simp add: readHeaders_line_def name valid hinsert_def)
qed

theorem C10_empty_header_name_witness:
  "hfind (m_headerIndexByName newRequest) [] = None \<and>
   readHeaders_line newRequest False '':v'' =
     Inr (newRequest\<lparr>m_headerIndexByName := [([], 0)], m_headers := [''v'']\<rparr>)"
  using C10_empty_header_name_stored [of newRequest False "''v''"]
  by (simp add: newRequest_def LF_def)


text \<open>
  C9, which holds in an amended form.  The claim: the version is rejected exactly when \<open>major < 1\<close> or
  (\<open>major = 1\<close> and \<open>minor < 0\<close>), so a version with \<open>major \<ge> 2\<close> and a negative minor
  passes.  The check in the code is \<open>major < 1 || minor < 0\<close>: the version \<open>2.-1\<close> is
  parsed (the minor is read as a signed integer) and rejected with 400, where \<open>2.0\<close> on
  the same request is accepted.
\<close>

theorem C9_negative_minor_rejected:
  "parseRequestLine ''GET / HTTP/2.-1 '' newRequest =
     Inr (newRequest\<lparr>m_method := ''GET'', m_uri := ''/'', m_majorVersion := 2,
       m_minorVersion := - 1\<rparr>) \<and>
   readRequest [''GET / HTTP/2.-1 '' @ CRLF @ ''Host:h'' @ CRLF @ CRLF] = Some (Inl (XHTTP 400)) \<and>
   readRequest [''GET / HTTP/2.0 '' @ CRLF @ ''Host:h'' @ CRLF @ CRLF] =
     Some (Inr (\<lparr>m_method = ''GET'', m_uri = ''/'', m_majorVersion = 2, m_minorVersion = 0,
       m_headers = [''h''], m_headerIndexByName = [(''Host'', 0)], m_body = []\<rparr>, []))"
  (is "?parse \<and> readRequest [?bad] = ?rbad \<and> readRequest [?ok] = Some (Inr (?r, []))")
proof (intro conjI)
  show ?parse
    by code_simp
next
  have 1: "readLine [?bad] [] = (''GET / HTTP/2.-1 '', [], ''Host:h'' @ CRLF @ CRLF)"
    by code_simp
  have 2: "readRequest_line ''GET / HTTP/2.-1 '' [] (''Host:h'' @ CRLF @ CRLF) = Inl (XHTTP 400)"
    by code_simp
  show "readRequest [?bad] = ?rbad"
    using readRequest_eval [OF 1 _ 2] by simp
next
  have 1: "readLine [?ok] [] = (''GET / HTTP/2.0 '', [], ''Host:h'' @ CRLF @ CRLF)"
    by code_simp
  have 2: "readRequest_line ''GET / HTTP/2.0 '' [] (''Host:h'' @ CRLF @ CRLF) = Inr (?r, [], [])"
    by code_simp
  show "readRequest [?ok] = Some (Inr (?r, []))"
    using readRequest_eval [OF 1 _ 2] by simp
qed

text \<open>
  C9 as amended: once the request line is parsed and the method is a valid token, the
  request is rejected with 400 for its version exactly when \<open>major < 1\<close> or
  \<open>minor < 0\<close>, whatever the stream holds; with any other version this check passes and
  the result is that of reading the headers and what follows them.
\<close>

theorem C9_version_check:
  assumes "parseRequestLine line newRequest = Inr request"
    and "isValidToken (m_method request)"
  shows "(m_majorVersion request < 1 \<or> m_minorVersion request < 0 \<longrightarrow>
            readRequest_line line stream scratch = Inl (XHTTP 400)) \<and>
         (\<not> (m_majorVersion request < 1 \<or> m_minorVersion request < 0) \<longrightarrow>
            readRequest_line line stream scratch =
              (case readHeaders stream request False scratch of
                 Inl e \<Rightarrow> Inl e
               | Inr (request1, stream1, scratch1) \<Rightarrow>
                   if hostMissing request1 then Inl (XHTTP 400)
                   else if bodyMismatch request1 then Inl (XHTTP 400)
                   else readBody request1 stream1 scratch1))"
  using assms by (simp add: readRequest_line_def invalidVersion_def)

theorem C9_version_check_witness:
  "parseRequestLine ''GET / HTTP/2.-1 '' newRequest =
     Inr (newRequest\<lparr>m_method := ''GET'', m_uri := ''/'', m_majorVersion := 2,
       m_minorVersion := - 1\<rparr>) \<and>
   isValidToken ''GET'' \<and>
   readRequest_line ''GET / HTTP/2.-1 '' [''Host:h'' @ CRLF @ CRLF] [] = Inl (XHTTP 400)"
proof -
  have p: "parseRequestLine ''GET / HTTP/2.-1 '' newRequest =
     Inr (newRequest\<lparr>m_method := ''GET'', m_uri := ''/'', m_majorVersion := 2,
       m_minorVersion := - 1\<rparr>)"
    by code_simp
  have v: "isValidToken (m_method (newRequest\<lparr>m_method := ''GET'', m_uri := ''/'',
       m_majorVersion := 2, m_minorVersion := - 1\<rparr>))"
    by code_simp
  from C9_version_check [OF p v, of "[''Host:h'' @ CRLF @ CRLF]" "[]"] p v
  show ?thesis by simp
qed


text \<open>
  C1, which holds in an amended form.  The claim: a request whose method is not GET or HEAD and that carries
  both a Transfer-Encoding and a Content-Length header is rejected with 400.  The check
  compares "neither header is present" with "the method is GET or HEAD": with both
  headers present and the method POST the two sides are both false, the request passes,
  and the body is read in chunks (Content-Length is ignored, as the comment in the code
  says).
\<close>

theorem C1_both_headers_accepted:
  "readRequest [''POST / HTTP/1.1 '' @ CRLF @ ''Host: h'' @ CRLF @
       ''Transfer-Encoding:chunked'' @ CRLF @ ''Content-Length: 3'' @ CRLF @ CRLF @
       ''4'' @ CRLF @ ''Wiki'' @ CRLF @ ''5'' @ CRLF @ ''pedia'' @ CRLF @ ''0'' @ CRLF @ CRLF] =
     Some (Inr (\<lparr>m_method = ''POST'', m_uri = ''/'', m_majorVersion = 1, m_minorVersion = 1,
       m_headers = ['' h'', ''chunked'', '' 3''],
       m_headerIndexByName =
         [(''Host'', 0), (''Transfer-Encoding'', 1), (''Content-Length'', 2)],
       m_body = ''Wikipedia''\<rparr>, []))"
  (is "readRequest [?inp] = Some (Inr (?r, []))")
proof -
  have 1: "readLine [?inp] [] = (''POST / HTTP/1.1 '', [], drop 18 ?inp)"
    by code_simp
  have 2: "readRequest_line ''POST / HTTP/1.1 '' [] (drop 18 ?inp) = Inr (?r, [], [])"
    by code_simp
  show ?thesis
    using readRequest_eval [OF 1 _ 2] by simp
qed

section \<open>Well-formed input\<close>

text \<open>
  What is still to be read: \<open>tmpBuffer\<close>, then the stream.  \<open>flowing\<close> says that no
  \<open>read\<close> returns 0 bytes before the stream has ended.
\<close>

definition avail :: "IInputStream \<Rightarrow> CString \<Rightarrow> CString" where
  "avail stream tmpBuffer = tmpBuffer @ concat stream"

definition flowing :: "IInputStream \<Rightarrow> bool" where
  "flowing stream = (\<forall>seg \<in> set stream. seg \<noteq> [])"

text \<open>
  The text of a chunked body as the wire format writes it.  A chunk is its size line,
  CRLF, the data, CRLF, and a last chunk of size 0 ends the list.  \<open>sizeLine l n\<close>: the
  line \<open>l\<close> starts with hexadecimal digits, in either case and with any leading zeros,
  whose value is \<open>n\<close>; what follows the digits (a chunk extension) is free.
\<close>

definition sizeLine :: "CString \<Rightarrow> nat \<Rightarrow> bool" where
  "sizeLine l n =
     (takeWhile isxdigit l \<noteq> [] \<and> digitsValue 16 (takeWhile isxdigit l) = int n \<and>
      take 2 l \<noteq> ''0x'' \<and> take 2 l \<noteq> ''0X'' \<and> CR \<notin> set l)"

definition chunkOk :: "CString \<times> CString \<Rightarrow> bool" where
  "chunkOk c = (snd c \<noteq> [] \<and> sizeLine (fst c) (length (snd c)))"

definition chunkText :: "CString \<times> CString \<Rightarrow> CString" where
  "chunkText c = fst c @ CRLF @ snd c @ CRLF"

definition chunkedText :: "(CString \<times> CString) list \<Rightarrow> CString \<Rightarrow> CString" where
  "chunkedText cs lastLine = concat (map chunkText cs) @ lastLine @ CRLF"

text \<open>The size line in lower-case digits without leading zeros.\<close>

definition hexDigit :: "nat \<Rightarrow> char" where
  "hexDigit d = (if d < 10 then char_of (48 + d) else char_of (87 + d))"

function hexString :: "nat \<Rightarrow> CString" where
  "hexString n = (if n < 16 then [hexDigit n] else hexString (n div 16) @ [hexDigit (n mod 16)])"
  by pat_completeness auto
termination
  by (relation "measure (\<lambda>n. n)") auto

declare hexString.simps [simp del]

text \<open>
  The text of a block of header lines: each line is the name, a colon, the value and CRLF,
  and an empty line ends the block.  \<open>headerOk\<close> is a line the parser takes as one
  header: the name is a valid token without a colon and does not start with a space or a
  tab, and neither part holds a carriage return or the value a line feed.
  \<open>storeHeader\<close> is the request with one more header: a new name gets the next index
  and its value is appended to the list; a name already there has \<open>","\<close> and the value
  appended to its stored value.
\<close>

definition headerOk :: "CString \<times> CString \<Rightarrow> bool" where
  "headerOk h =
     (CHR '':'' \<notin> set (fst h) \<and> isValidToken (fst h) \<and>
      take 1 (fst h) \<noteq> '' '' \<and> take 1 (fst h) \<noteq> [CHR 0x09] \<and>
      CR \<notin> set (fst h) \<and> CR \<notin> set (snd h) \<and> LF \<notin> set (snd h))"

definition headerLine :: "CString \<times> CString \<Rightarrow> CString" where
  "headerLine h = fst h @ '':'' @ snd h"

definition headerText :: "(CString \<times> CString) list \<Rightarrow> CString" where
  "headerText hs = concat (map (\<lambda>h. headerLine h @ CRLF) hs) @ CRLF"

definition storeHeader :: "CHTTPRequest \<Rightarrow> CString \<times> CString \<Rightarrow> CHTTPRequest" where
  "storeHeader request h =
     (case hfind (m_headerIndexByName request) (fst h) of
        None \<Rightarrow>
          request
            \<lparr>m_headerIndexByName :=
               m_headerIndexByName request @ [(fst h, length (m_headers request))],
             m_headers := m_headers request @ [snd h]\<rparr>
      | Some i \<Rightarrow>
          request\<lparr>m_headers := (m_headers request)[i := m_headers request ! i @ '','' @ snd h]\<rparr>)"

subsection \<open>Lines and blocks\<close>

lemma str_find_CRLF_first:
  "CR \<notin> set l \<Longrightarrow> str_find (l @ CRLF @ r) CRLF = Some (length l)"
  by (induction l) (auto simp: CRLF_def)

lemma str_find_append:
  "str_find s needle = Some k \<Longrightarrow> str_find (s @ t) needle = Some k"
proof (induction s arbitrary: k)
  case Nil
  then show ?case by (cases t) (auto split: if_splits)
next
  case (Cons c cs)
  show ?case
  proof (cases "take (length needle) (c # cs) = needle")
    case True
    then have "length (take (length needle) (c # cs)) = length needle"
      by simp
    then have "length needle \<le> length (c # cs)"
      by simp
    then have "take (length needle) (c # cs @ t) = take (length needle) (c # cs)"
      by (cases "length needle") auto
    with True Cons.prems show ?thesis by simp
  next
    case False
    with Cons.prems obtain j where j: "str_find cs needle = Some j" "k = Suc j"
      by auto
    from str_find_bound [OF j(1)] have "length needle \<le> length (c # cs)"
      by simp
    then have "take (length needle) (c # cs @ t) = take (length needle) (c # cs)"
      by (cases "length needle") auto
    with False have "take (length needle) ((c # cs) @ t) \<noteq> needle"
      by simp
    with Cons.IH [OF j(1)] j(2) show ?thesis by simp
  qed
qed

lemma stream_read_flowing:
  assumes "flowing stream" and "stream_read stream n = (buffer, stream')" and "0 < n"
  shows "buffer @ concat stream' = concat stream" and "flowing stream'"
    and "buffer = [] \<longleftrightarrow> stream = []"
  using assms by (cases stream; auto simp: flowing_def split: if_splits)+

lemma readLine_flowing:
  assumes "flowing stream" and "avail stream tmpBuffer = l @ CRLF @ r" and "CR \<notin> set l"
  shows "\<exists>stream' tmp'. readLine stream tmpBuffer = (l, stream', tmp') \<and>
           avail stream' tmp' = r \<and> flowing stream'"
  using assms
proof (induction stream tmpBuffer rule: readLine.induct)
  case (1 stream tmpBuffer)
  note first = str_find_CRLF_first [OF \<open>CR \<notin> set l\<close>, of r]
  show ?case
  proof (cases "str_find tmpBuffer CRLF")
    case (Some newline)
    from str_find_append [OF Some, of "concat stream"] "1.prems"(2) first
    have n: "newline = length l"
      by (simp add: avail_def)
    from str_find_bound [OF Some] n have len: "length l + 2 \<le> length tmpBuffer"
      by (simp add: CRLF_def)
    from "1.prems"(2) have eq: "tmpBuffer @ concat stream = l @ CRLF @ r"
      by (simp add: avail_def)
    from eq len have tk: "take (length l) tmpBuffer = l"
      by (metis append_eq_conv_conj add_leE take_append diff_is_0_eq' take_0 append_Nil2)
    from eq len have "drop (length l + 2) (tmpBuffer @ concat stream) = r"
      by (simp add: CRLF_def)
    with len have dr: "drop (length l + 2) tmpBuffer @ concat stream = r"
      by simp
    from Some n tk dr "1.prems"(1) show ?thesis
      by (subst readLine.simps) (simp add: avail_def)
  next
    case None
    obtain buffer stream1 where rd: "stream_read stream 4096 = (buffer, stream1)"
      by (cases "stream_read stream 4096")
    note fl = stream_read_flowing [OF "1.prems"(1) rd]
    have ne: "buffer \<noteq> []"
    proof
      assume "buffer = []"
      with fl(3) have "stream = []" by simp
      with "1.prems"(2) first None show False
        by (simp add: avail_def)
    qed
    from fl(1) "1.prems"(2) have av: "avail stream1 (tmpBuffer @ buffer) = l @ CRLF @ r"
      by (simp add: avail_def)
    from "1.IH" [OF None rd [symmetric] _ fl(2) av "1.prems"(3)] ne
    obtain stream' tmp' where
      "readLine stream1 (tmpBuffer @ buffer) = (l, stream', tmp')"
      "avail stream' tmp' = r" "flowing stream'"
      by auto
    with None rd ne show ?thesis
      by (subst readLine.simps) simp
  qed
qed

lemma readBlock_loop_flowing:
  assumes "flowing stream" and "numBytes \<le> length (concat stream)"
  shows "\<exists>stream'. readBlock_loop stream numBytes data =
             (data @ take numBytes (concat stream), stream') \<and>
           concat stream' = drop numBytes (concat stream) \<and> flowing stream'"
  using assms
proof (induction stream numBytes data rule: readBlock_loop.induct)
  case (1 stream numBytes data)
  show ?case
  proof (cases "numBytes > 0")
    case False
    with "1.prems" show ?thesis
      by (subst readBlock_loop.simps) simp
  next
    case True
    let ?n = "if 4096 > numBytes then numBytes else 4096"
    obtain buffer stream1 where rd: "stream_read stream ?n = (buffer, stream1)"
      by (cases "stream_read stream ?n")
    from True have pos: "0 < ?n" by simp
    note fl = stream_read_flowing [OF "1.prems"(1) rd pos]
    from True "1.prems"(2) have "stream \<noteq> []" by auto
    with fl(3) have ne: "buffer \<noteq> []" by simp
    have lb: "length buffer \<le> numBytes"
      using rd by (cases stream) (auto split: if_splits)
    from fl(1) have cs: "concat stream = buffer @ concat stream1" by simp
    with "1.prems"(2) lb have le: "numBytes - length buffer \<le> length (concat stream1)"
      by simp
    from "1.IH" [OF True rd [symmetric] _ fl(2) le] ne
    obtain stream' where
      r: "readBlock_loop stream1 (numBytes - length buffer) (data @ buffer) =
            ((data @ buffer) @ take (numBytes - length buffer) (concat stream1), stream')"
      and d: "concat stream' = drop (numBytes - length buffer) (concat stream1)"
      and f: "flowing stream'"
      by auto
    from lb have tk: "take numBytes (concat stream) =
        buffer @ take (numBytes - length buffer) (concat stream1)"
      by (simp add: cs)
    from lb have dr: "drop numBytes (concat stream) =
        drop (numBytes - length buffer) (concat stream1)"
      by (simp add: cs)
    from True rd ne r d f tk dr show ?thesis
      by (subst readBlock_loop.simps) simp
  qed
qed

lemma readBlock_flowing:
  assumes "flowing stream" and "numBytes \<le> length (avail stream tmpBuffer)" and "0 < numBytes"
  shows "\<exists>stream' tmp'. readBlock stream numBytes tmpBuffer =
             Inr (take numBytes (avail stream tmpBuffer), stream', tmp') \<and>
           avail stream' tmp' = drop numBytes (avail stream tmpBuffer) \<and> flowing stream'"
proof (cases "length tmpBuffer \<ge> numBytes")
  case True
  with assms(3) have "length tmpBuffer > 0"
    by linarith
  with True assms(1) show ?thesis
    by (simp add: readBlock_def avail_def)
next
  case False
  with assms(2) have le: "numBytes - length tmpBuffer \<le> length (concat stream)"
    by (simp add: avail_def)
  from readBlock_loop_flowing [OF assms(1) le, of tmpBuffer]
  obtain stream' where
    r: "readBlock_loop stream (numBytes - length tmpBuffer) tmpBuffer =
          (tmpBuffer @ take (numBytes - length tmpBuffer) (concat stream), stream')"
    and d: "concat stream' = drop (numBytes - length tmpBuffer) (concat stream)"
    and f: "flowing stream'"
    by auto
  from False r d f show ?thesis
    by (simp add: readBlock_def avail_def Let_def)
qed

text \<open>The size line: \<open>s >> std::hex >> size\<close> reads back what \<open>hexString\<close> wrote.\<close>

lemma hexDigit_props:
  assumes "d < 16"
  shows "isxdigit (hexDigit d)" and "\<not> isspace (hexDigit d)" and "digitValue (hexDigit d) = d"
    and "hexDigit d \<noteq> CHR ''-''" and "hexDigit d \<noteq> CHR ''+''"
    and "hexDigit d \<noteq> CHR ''x''" and "hexDigit d \<noteq> CHR ''X''" and "hexDigit d \<noteq> CR"
proof -
  have c: "char_code (hexDigit d) = (if d < 10 then 48 + d else 87 + d)"
    using assms by (simp add: hexDigit_def char_code_def)
  show "isxdigit (hexDigit d)"
    using assms by (auto simp: isxdigit_def isdigit_def c)
  show "\<not> isspace (hexDigit d)"
    using assms by (auto simp: isspace_def c)
  show "digitValue (hexDigit d) = d"
    using assms by (auto simp: digitValue_def isdigit_def c)
  have ne: "hexDigit d \<noteq> k"
    if "char_code k = v" and "v < 48 \<or> (57 < v \<and> v < 97) \<or> 102 < v" for k v
    using that c assms by (auto split: if_splits)
  show "hexDigit d \<noteq> CHR ''-''"
    by (rule ne [where v = 45]) (simp_all add: char_code_def)
  show "hexDigit d \<noteq> CHR ''+''"
    by (rule ne [where v = 43]) (simp_all add: char_code_def)
  show "hexDigit d \<noteq> CHR ''x''"
    by (rule ne [where v = 120]) (simp_all add: char_code_def)
  show "hexDigit d \<noteq> CHR ''X''"
    by (rule ne [where v = 88]) (simp_all add: char_code_def)
  show "hexDigit d \<noteq> CR"
    by (rule ne [where v = 13]) (simp_all add: char_code_def CR_def)
qed


subsection \<open>Size lines\<close>

lemma isxdigit_plain:
  assumes "isxdigit c"
  shows "\<not> isspace c" and "c \<noteq> CHR ''-''" and "c \<noteq> CHR ''+''"
proof -
  from assms have r: "(48 \<le> char_code c \<and> char_code c \<le> 57) \<or>
      (97 \<le> char_code c \<and> char_code c \<le> 102) \<or> (65 \<le> char_code c \<and> char_code c \<le> 70)"
    by (simp add: isxdigit_def isdigit_def)
  then show "\<not> isspace c"
    by (auto simp: isspace_def)
  show "c \<noteq> CHR ''-''"
  proof
    assume "c = CHR ''-''"
    then have "char_code c = 45" by (simp add: char_code_def)
    with r show False by simp
  qed
  show "c \<noteq> CHR ''+''"
  proof
    assume "c = CHR ''+''"
    then have "char_code c = 43" by (simp add: char_code_def)
    with r show False by simp
  qed
qed

lemma extract_UInt32_sizeLine:
  assumes "sizeLine l n" and "n < 2 ^ 32"
  shows "extract_UInt32 16 (istringstream_of l) =
           (n, \<lparr>buf = dropWhile isxdigit l, eofbit = (dropWhile isxdigit l = []),
                failbit = False\<rparr>)"
proof -
  from assms(1) have ne: "takeWhile isxdigit l \<noteq> []"
    and v: "digitsValue 16 (takeWhile isxdigit l) = int n"
    and C: "take 2 l \<noteq> ''0x''" "take 2 l \<noteq> ''0X''"
    by (simp_all add: sizeLine_def)
  from ne obtain c cs where l: "l = c # cs" and x: "isxdigit c"
    by (cases l) (auto split: if_splits)
  note p = isxdigit_plain [OF x]
  have A: "dropWhile isspace l = l" "l \<noteq> []"
    using p(1) by (simp_all add: l)
  have B: "take (Suc 0) l \<noteq> ''-''" "take (Suc 0) l \<noteq> ''+''"
    using p(2) p(3) by (simp_all add: l)
  have E: "\<not> 4294967295 < n"
    using assms(2) by simp
  show ?thesis
    using ne
    by (simp add: extract_UInt32_def istringstream_of_def sentry_def good_def Let_def
        A B C v E)
qed

lemma hexString_small: "n < 16 \<Longrightarrow> hexString n = [hexDigit n]"
  by (subst hexString.simps) simp

lemma hexString_large:
  "\<not> n < 16 \<Longrightarrow> hexString n = hexString (n div 16) @ [hexDigit (n mod 16)]"
  by (subst hexString.simps) simp

lemma hexString_chars: "c \<in> set (hexString n) \<Longrightarrow> \<exists>d<16. c = hexDigit d"
proof (induction n rule: hexString.induct)
  case (1 n)
  show ?case
  proof (cases "n < 16")
    case True
    with "1.prems" show ?thesis
      by (auto simp: hexString_small)
  next
    case False
    from "1.prems" have "c \<in> set (hexString (n div 16)) \<or> c = hexDigit (n mod 16)"
      by (auto simp: hexString_large [OF False])
    then show ?thesis
    proof
      assume "c \<in> set (hexString (n div 16))"
      with "1.IH" [OF False] show ?thesis by simp
    next
      assume "c = hexDigit (n mod 16)"
      moreover have "n mod 16 < 16" by simp
      ultimately show ?thesis by blast
    qed
  qed
qed

lemma hexString_nonempty: "hexString n \<noteq> []"
  by (cases "n < 16") (simp_all add: hexString_small hexString_large)

lemma digitsValue_snoc:
  "digitsValue base (ds @ [c]) = digitsValue base ds * base + int (digitValue c)"
  by (simp add: digitsValue_def)

lemma hexString_value: "digitsValue 16 (hexString n) = int n"
proof (induction n rule: hexString.induct)
  case (1 n)
  show ?case
  proof (cases "n < 16")
    case True
    then show ?thesis
      by (simp add: hexString_small digitsValue_def hexDigit_props(3))
  next
    case False
    have m: "n mod 16 < 16" by simp
    have "digitsValue 16 (hexString n) =
        digitsValue 16 (hexString (n div 16)) * 16 + int (digitValue (hexDigit (n mod 16)))"
      by (simp only: hexString_large [OF False] digitsValue_snoc)
    also have "\<dots> = int (n div 16) * 16 + int (n mod 16)"
      by (simp only: "1.IH" [OF False] hexDigit_props(3) [OF m])
    also have "\<dots> = int n"
      by (simp add: zdiv_int zmod_int)
    finally show ?thesis .
  qed
qed


lemma not_isxdigit:
  "\<not> isxdigit (CHR ''x'')" "\<not> isxdigit (CHR ''X'')" "\<not> isxdigit CR"
  by (simp_all add: isxdigit_def isdigit_def char_code_def CR_def)

lemma take_2_in_set: "take 2 l = [a, b] \<Longrightarrow> b \<in> set l"
  by (metis in_set_takeD list.set_intros(1) list.set_intros(2))

lemma sizeLine_hexString: "sizeLine (hexString n) n"
proof -
  have all: "\<forall>x \<in> set (hexString n). isxdigit x"
    using hexString_chars [of _ n] hexDigit_props(1) by auto
  then have tw: "takeWhile isxdigit (hexString n) = hexString n"
    by (simp add: takeWhile_eq_all_conv)
  from all not_isxdigit have nx: "CHR ''x'' \<notin> set (hexString n)"
    "CHR ''X'' \<notin> set (hexString n)" "CR \<notin> set (hexString n)"
    by blast+
  have pre: "take 2 (hexString n) \<noteq> ''0x''" "take 2 (hexString n) \<noteq> ''0X''"
    using nx(1) nx(2) take_2_in_set [of "hexString n"] by blast+
  show ?thesis
    unfolding sizeLine_def tw
    using pre nx(3) hexString_nonempty [of n] hexString_value [of n]
    by simp
qed

subsection \<open>Chunks\<close>

lemma readChunk_data:
  assumes "flowing stream" and "avail stream tmpBuffer = chunkText c @ rest"
    and "chunkOk c" and "length (snd c) < 2 ^ 32"
  shows "\<exists>stream' tmp'. readChunk stream tmpBuffer = Inr (snd c, stream', tmp') \<and>
           avail stream' tmp' = rest \<and> flowing stream'"
proof -
  obtain l d where c: "c = (l, d)" by (cases c)
  from assms(3) have d: "d \<noteq> []" and sl: "sizeLine l (length d)"
    by (simp_all add: chunkOk_def c)
  from sl have nocr: "CR \<notin> set l"
    by (simp add: sizeLine_def)
  from assms(2) have "avail stream tmpBuffer = l @ CRLF @ (d @ CRLF @ rest)"
    by (simp add: chunkText_def c)
  from readLine_flowing [OF assms(1) this nocr]
  obtain stream1 tmp1 where
    l1: "readLine stream tmpBuffer = (l, stream1, tmp1)"
    and a1: "avail stream1 tmp1 = d @ CRLF @ rest" and f1: "flowing stream1"
    by auto
  from assms(4) have "length d < 2 ^ 32" by (simp add: c)
  note ex = extract_UInt32_sizeLine [OF sl this]
  from d a1 have "length d \<le> length (avail stream1 tmp1)" "0 < length d"
    by simp_all
  from readBlock_flowing [OF f1 this] a1
  obtain stream2 tmp2 where
    b: "readBlock stream1 (length d) tmp1 = Inr (d, stream2, tmp2)"
    and a2: "avail stream2 tmp2 = [] @ CRLF @ rest" and f2: "flowing stream2"
    by auto
  have "CR \<notin> set []" by simp
  from readLine_flowing [OF f2 a2 this]
  obtain stream3 tmp3 where
    l2: "readLine stream2 tmp2 = ([], stream3, tmp3)"
    and a3: "avail stream3 tmp3 = rest" and f3: "flowing stream3"
    by auto
  from l1 ex d b l2 have "readChunk stream tmpBuffer = Inr (d, stream3, tmp3)"
    by (simp add: readChunk_def)
  with a3 f3 show ?thesis by (auto simp: c)
qed

lemma readChunk_last:
  assumes "flowing stream" and "avail stream tmpBuffer = lastLine @ CRLF @ rest"
    and "sizeLine lastLine 0"
  shows "\<exists>stream' tmp'. readChunk stream tmpBuffer = Inr ([], stream', tmp') \<and>
           avail stream' tmp' = rest \<and> flowing stream'"
proof -
  from assms(3) have "CR \<notin> set lastLine"
    by (simp add: sizeLine_def)
  from readLine_flowing [OF assms(1) assms(2) this]
  obtain stream1 tmp1 where
    l1: "readLine stream tmpBuffer = (lastLine, stream1, tmp1)"
    and a1: "avail stream1 tmp1 = rest" and f1: "flowing stream1"
    by auto
  from l1 extract_UInt32_sizeLine [OF assms(3)]
  have "readChunk stream tmpBuffer = Inr ([], stream1, tmp1)"
    by (simp add: readChunk_def)
  with a1 f1 show ?thesis by blast
qed

lemma readChunks_flowing:
  assumes "flowing stream" and "avail stream scratch = chunkedText cs lastLine @ rest"
    and "\<forall>c \<in> set cs. chunkOk c" and "sizeLine lastLine 0"
    and "length (body @ concat (map snd cs)) < 2 ^ 32"
  shows "\<exists>stream' scratch'.
           readChunks body stream scratch = Inr (body @ concat (map snd cs), stream', scratch') \<and>
           avail stream' scratch' = rest \<and> flowing stream'"
  using assms
proof (induction cs arbitrary: body stream scratch)
  case Nil
  then have "avail stream scratch = lastLine @ CRLF @ rest"
    by (simp add: chunkedText_def)
  from readChunk_last [OF Nil.prems(1) this Nil.prems(4)]
  obtain stream' scratch' where
    r: "readChunk stream scratch = Inr ([], stream', scratch')"
    and a: "avail stream' scratch' = rest" and f: "flowing stream'"
    by auto
  from Nil.prems(5) have "int (length body) mod 2 ^ 32 = int (length body)"
    by simp
  with r have "readChunks body stream scratch = Inr (body, stream', scratch')"
    by (subst readChunks.simps) (simp add: Let_def)
  with a f show ?case by simp
next
  case (Cons c cs)
  from Cons.prems(2)
  have av: "avail stream scratch = chunkText c @ (chunkedText cs lastLine @ rest)"
    by (simp add: chunkedText_def)
  from Cons.prems(3) have c: "chunkOk c" and cs: "\<forall>c \<in> set cs. chunkOk c"
    by simp_all
  from c have ne: "snd c \<noteq> []"
    by (simp add: chunkOk_def)
  from Cons.prems(5) have lc: "length (snd c) < 2 ^ 32" and lb: "length body < 2 ^ 32"
    and lr: "length ((body @ snd c) @ concat (map snd cs)) < 2 ^ 32"
    by simp_all
  from readChunk_data [OF Cons.prems(1) av c lc]
  obtain stream1 scratch1 where
    r: "readChunk stream scratch = Inr (snd c, stream1, scratch1)"
    and a1: "avail stream1 scratch1 = chunkedText cs lastLine @ rest" and f1: "flowing stream1"
    by auto
  from Cons.IH [OF f1 a1 cs Cons.prems(4) lr]
  obtain stream' scratch' where
    rs: "readChunks (body @ snd c) stream1 scratch1 =
           Inr ((body @ snd c) @ concat (map snd cs), stream', scratch')"
    and a: "avail stream' scratch' = rest" and f: "flowing stream'"
    by auto
  from lb have "int (length body) mod 2 ^ 32 = int (length body)"
    by simp
  with ne r rs
  have "readChunks body stream scratch = Inr (body @ concat (map snd (c # cs)), stream', scratch')"
    by (subst readChunks.simps) (simp add: Let_def)
  with a f show ?case by blast
qed

subsection \<open>Header lines\<close>

lemma takeWhile_until:
  "d \<notin> set n \<Longrightarrow>
   takeWhile (\<lambda>c. c \<noteq> d) (n @ d # v) = n \<and> dropWhile (\<lambda>c. c \<noteq> d) (n @ d # v) = d # v"
  by (induction n) auto

lemma readHeaders_line_header:
  assumes "headerOk h"
  shows "readHeaders_line request isFooter (headerLine h) = Inr (storeHeader request h)"
proof -
  obtain n v where h: "h = (n, v)" by (cases h)
  from assms have colon: "CHR '':'' \<notin> set n" and valid: "isValidToken n"
    and sp: "take 1 n \<noteq> '' ''" "take 1 n \<noteq> [CHR 0x09]" and lf: "LF \<notin> set v"
    by (simp_all add: headerOk_def h)
  have first: "\<not> (hd (n @ '':'' @ v) = CHR '' '' \<or> hd (n @ '':'' @ v) = CHR 0x09)"
    using sp by (cases n) simp_all
  from colon have tw: "takeWhile (\<lambda>c. c \<noteq> CHR '':'') (n @ CHR '':'' # v) = n"
    "dropWhile (\<lambda>c. c \<noteq> CHR '':'') (n @ CHR '':'' # v) = CHR '':'' # v"
    using takeWhile_until [of "CHR '':''" n v] by simp_all
  have name: "getline (istringstream_of (n @ '':'' @ v)) (CHR '':'') [] =
      (n, \<lparr>buf = v, eofbit = False, failbit = False\<rparr>)"
    by (simp add: getline_def sentry_def good_def istringstream_of_def Let_def tw)
  from lf have tv: "takeWhile (\<lambda>c. c \<noteq> LF) v = v" "dropWhile (\<lambda>c. c \<noteq> LF) v = []"
    by (auto simp: takeWhile_eq_all_conv)
  have val: "fst (getline \<lparr>buf = v, eofbit = False, failbit = False\<rparr> LF []) = v"
    by (simp add: getline_def sentry_def good_def Let_def tv)
  obtain v' s2 where g: "getline \<lparr>buf = v, eofbit = False, failbit = False\<rparr> LF [] = (v', s2)"
    by (cases "getline \<lparr>buf = v, eofbit = False, failbit = False\<rparr> LF []")
  with val have v': "v' = v" by simp
  have "readHeaders_line request isFooter (n @ '':'' @ v) = Inr (storeHeader request (n, v))"
    unfolding readHeaders_line_def
    using first valid
    by (simp only: if_False name prod.case g v' simp_thms if_False)
      (simp add: storeHeader_def hinsert_def split: option.splits)
  then show ?thesis by (simp add: headerLine_def h)
qed

lemma headerLine_plain:
  assumes "headerOk h"
  shows "headerLine h \<noteq> []" and "CR \<notin> set (headerLine h)"
proof -
  show "headerLine h \<noteq> []"
    by (simp add: headerLine_def)
  have "CR \<noteq> CHR '':''"
    by (simp add: CR_def)
  with assms show "CR \<notin> set (headerLine h)"
    by (auto simp: headerLine_def headerOk_def)
qed

lemma readHeaders_loop_flowing:
  assumes "flowing stream" and "avail stream tmpBuffer = headerText hs @ rest"
    and "headerOk h" and "\<forall>h \<in> set hs. headerOk h"
  shows "\<exists>stream' tmp'.
           readHeaders_loop request isFooter (headerLine h) stream tmpBuffer =
             Inr (foldl storeHeader request (h # hs), stream', tmp') \<and>
           avail stream' tmp' = rest \<and> flowing stream'"
  using assms
proof (induction hs arbitrary: request h stream tmpBuffer)
  case Nil
  note line = readHeaders_line_header [OF Nil.prems(3), of request isFooter]
  from Nil.prems(2) have "avail stream tmpBuffer = [] @ CRLF @ rest"
    by (simp add: headerText_def)
  moreover have "CR \<notin> set []" by simp
  ultimately obtain stream' tmp' where
    r: "readLine stream tmpBuffer = ([], stream', tmp')"
    and a: "avail stream' tmp' = rest" and f: "flowing stream'"
    using readLine_flowing [OF Nil.prems(1)] by blast
  have e: "readHeaders_loop (storeHeader request h) isFooter [] stream' tmp' =
      Inr (storeHeader request h, stream', tmp')"
    by (subst readHeaders_loop.simps) simp
  from headerLine_plain(1) [OF Nil.prems(3)] line r e
  have "readHeaders_loop request isFooter (headerLine h) stream tmpBuffer =
      Inr (storeHeader request h, stream', tmp')"
    by (subst readHeaders_loop.simps) simp
  with a f show ?case by simp
next
  case (Cons h' hs)
  note line = readHeaders_line_header [OF Cons.prems(3), of request isFooter]
  from Cons.prems(4) have ok': "headerOk h'" and oks: "\<forall>h \<in> set hs. headerOk h"
    by simp_all
  from Cons.prems(2)
  have "avail stream tmpBuffer = headerLine h' @ CRLF @ (headerText hs @ rest)"
    by (simp add: headerText_def)
  from readLine_flowing [OF Cons.prems(1) this headerLine_plain(2) [OF ok']]
  obtain stream1 tmp1 where
    r: "readLine stream tmpBuffer = (headerLine h', stream1, tmp1)"
    and a1: "avail stream1 tmp1 = headerText hs @ rest" and f1: "flowing stream1"
    by auto
  from Cons.IH [OF f1 a1 ok' oks, of "storeHeader request h"]
  obtain stream' tmp' where
    l: "readHeaders_loop (storeHeader request h) isFooter (headerLine h') stream1 tmp1 =
          Inr (foldl storeHeader (storeHeader request h) (h' # hs), stream', tmp')"
    and a: "avail stream' tmp' = rest" and f: "flowing stream'"
    by auto
  from headerLine_plain(1) [OF Cons.prems(3)] line r l
  have "readHeaders_loop request isFooter (headerLine h) stream tmpBuffer =
      Inr (foldl storeHeader request (h # h' # hs), stream', tmp')"
    by (subst readHeaders_loop.simps) simp
  with a f show ?case by blast
qed

lemma readHeaders_flowing:
  assumes "flowing stream" and "avail stream tmpBuffer = headerText hs @ rest"
    and "\<forall>h \<in> set hs. headerOk h"
  shows "\<exists>stream' tmp'.
           readHeaders stream request isFooter tmpBuffer =
             Inr (foldl storeHeader request hs, stream', tmp') \<and>
           avail stream' tmp' = rest \<and> flowing stream'"
proof (cases hs)
  case Nil
  with assms(2) have "avail stream tmpBuffer = [] @ CRLF @ rest"
    by (simp add: headerText_def)
  moreover have "CR \<notin> set []" by simp
  ultimately obtain stream' tmp' where
    r: "readLine stream tmpBuffer = ([], stream', tmp')"
    and a: "avail stream' tmp' = rest" and f: "flowing stream'"
    using readLine_flowing [OF assms(1)] by blast
  have "readHeaders_loop request isFooter [] stream' tmp' = Inr (request, stream', tmp')"
    by (subst readHeaders_loop.simps) simp
  with r have "readHeaders stream request isFooter tmpBuffer = Inr (request, stream', tmp')"
    by (simp add: readHeaders_def)
  with a f Nil show ?thesis by simp
next
  case (Cons h hs')
  with assms(3) have ok: "headerOk h" and oks: "\<forall>h \<in> set hs'. headerOk h"
    by simp_all
  from assms(2) Cons
  have "avail stream tmpBuffer = headerLine h @ CRLF @ (headerText hs' @ rest)"
    by (simp add: headerText_def)
  from readLine_flowing [OF assms(1) this headerLine_plain(2) [OF ok]]
  obtain stream1 tmp1 where
    r: "readLine stream tmpBuffer = (headerLine h, stream1, tmp1)"
    and a1: "avail stream1 tmp1 = headerText hs' @ rest" and f1: "flowing stream1"
    by auto
  from readHeaders_loop_flowing [OF f1 a1 ok oks, of request isFooter]
  obtain stream' tmp' where
    l: "readHeaders_loop request isFooter (headerLine h) stream1 tmp1 =
          Inr (foldl storeHeader request (h # hs'), stream', tmp')"
    and a: "avail stream' tmp' = rest" and f: "flowing stream'"
    by auto
  from r l have "readHeaders stream request isFooter tmpBuffer =
      Inr (foldl storeHeader request hs, stream', tmp')"
    by (simp add: readHeaders_def Cons)
  with a f show ?thesis by blast
qed

subsection \<open>The body and the whole request\<close>

lemma storeHeader_fields:
  "m_method (storeHeader request h) = m_method request"
  "m_body (storeHeader request h) = m_body request"
  "m_majorVersion (storeHeader request h) = m_majorVersion request"
  "m_minorVersion (storeHeader request h) = m_minorVersion request"
  by (simp_all add: storeHeader_def split: option.splits)

lemma foldl_storeHeader_fields:
  "m_method (foldl storeHeader request hs) = m_method request"
  "m_body (foldl storeHeader request hs) = m_body request"
  "m_majorVersion (foldl storeHeader request hs) = m_majorVersion request"
  "m_minorVersion (foldl storeHeader request hs) = m_minorVersion request"
  by (induction hs arbitrary: request) (simp_all add: storeHeader_fields)

lemma parseRequestLine_body:
  "parseRequestLine line newRequest = Inr request \<Longrightarrow> m_body request = []"
  by (auto simp: parseRequestLine_def newRequest_def split: prod.splits if_splits)

lemma readBody_chunked:
  assumes "hfind (m_headerIndexByName request) ''Transfer-Encoding'' = Some index"
    and "CaselessCmp_equal (m_headers request ! index) ''chunked''"
    and "flowing stream"
    and "avail stream scratch = chunkedText cs lastLine @ headerText footers @ rest"
    and "\<forall>c \<in> set cs. chunkOk c" and "sizeLine lastLine 0"
    and "\<forall>h \<in> set footers. headerOk h"
    and "length (m_body request @ concat (map snd cs)) < 2 ^ 32"
  shows "\<exists>stream' scratch'.
           readBody request stream scratch =
             Inr (foldl storeHeader
                    (request\<lparr>m_body := m_body request @ concat (map snd cs)\<rparr>) footers,
                  stream', scratch') \<and>
           avail stream' scratch' = rest \<and> flowing stream'"
proof -
  from readChunks_flowing [OF assms(3) assms(4) assms(5) assms(6) assms(8)]
  obtain stream1 scratch1 where
    r: "readChunks (m_body request) stream scratch =
          Inr (m_body request @ concat (map snd cs), stream1, scratch1)"
    and a1: "avail stream1 scratch1 = headerText footers @ rest" and f1: "flowing stream1"
    by auto
  from readHeaders_flowing [OF f1 a1 assms(7),
      of "request\<lparr>m_body := m_body request @ concat (map snd cs)\<rparr>" True]
  obtain stream' scratch' where
    h: "readHeaders stream1 (request\<lparr>m_body := m_body request @ concat (map snd cs)\<rparr>) True
          scratch1 =
        Inr (foldl storeHeader
               (request\<lparr>m_body := m_body request @ concat (map snd cs)\<rparr>) footers,
             stream', scratch')"
    and a: "avail stream' scratch' = rest" and f: "flowing stream'"
    by auto
  from assms(1) assms(2) r h have "readBody request stream scratch =
      Inr (foldl storeHeader
             (request\<lparr>m_body := m_body request @ concat (map snd cs)\<rparr>) footers,
           stream', scratch')"
    by (simp add: readBody_def)
  with a f show ?thesis by blast
qed

lemma readBody_length:
  assumes "hfind (m_headerIndexByName request) ''Transfer-Encoding'' = None"
    and "hfind (m_headerIndexByName request) ''Content-Length'' = Some index"
    and "extract_UInt32 10 (istringstream_of (m_headers request ! index)) = (len, s)"
    and "\<not> failbit s" and "0 < len"
    and "flowing stream" and "len \<le> length (avail stream scratch)"
  shows "\<exists>stream' scratch'.
           readBody request stream scratch =
             Inr (request\<lparr>m_body := take len (avail stream scratch)\<rparr>, stream', scratch') \<and>
           avail stream' scratch' = drop len (avail stream scratch)"
proof -
  from readBlock_flowing [OF assms(6) assms(7) assms(5)]
  obtain stream' scratch' where
    b: "readBlock stream len scratch = Inr (take len (avail stream scratch), stream', scratch')"
    and a: "avail stream' scratch' = drop len (avail stream scratch)"
    by auto
  from assms(7) have "length (take len (avail stream scratch)) = len"
    by simp
  with assms(1) assms(2) assms(3) assms(4) b
  have "readBody request stream scratch =
      Inr (request\<lparr>m_body := take len (avail stream scratch)\<rparr>, stream', scratch')"
    by (simp add: readBody_def)
  with a show ?thesis by blast
qed

lemma readRequest_skip_flowing:
  assumes "flowing stream" and "concat stream = line @ CRLF @ rest"
    and "line \<noteq> []" and "CR \<notin> set line"
  shows "\<exists>stream' scratch'. readRequest_skip stream [] = Some (line, stream', scratch') \<and>
           avail stream' scratch' = rest \<and> flowing stream'"
proof -
  from assms(2) have "avail stream [] = line @ CRLF @ rest"
    by (simp add: avail_def)
  from readLine_flowing [OF assms(1) this assms(4)]
  obtain stream' scratch' where
    r: "readLine stream [] = (line, stream', scratch')"
    and a: "avail stream' scratch' = rest" and f: "flowing stream'"
    by auto
  from readRequest_skip_found [OF r assms(3)] a f show ?thesis by blast
qed

text \<open>
  C4.  A request whose text is the request line, its headers, the chunks (each not empty,
  each with any size line that gives its length in hexadecimal), a last chunk of size 0
  and the footer lines: \<open>readRequest\<close> reads the chunks until the one of size 0 and
  returns the request whose body is the chunks' data in order and whose headers are those
  of the header block with the footer lines stored after them by the same rule
  (\<open>storeHeader\<close> for both).  The header block must carry a Transfer-Encoding whose
  stored value equals \<open>chunked\<close> without regard to case.  This holds however the stream
  cuts the text into reads, as long as no read returns 0 bytes before the text ends.
\<close>

theorem C4_chunked_request:
  assumes "flowing stream"
    and "concat stream =
           line @ CRLF @ headerText headers @ chunkedText cs lastLine @ headerText footers @ rest"
    and "line \<noteq> []" and "CR \<notin> set line"
    and "parseRequestLine line newRequest = Inr request"
    and "isValidToken (m_method request)" and "\<not> invalidVersion request"
    and "m_method request \<noteq> ''GET''" and "m_method request \<noteq> ''HEAD''"
    and "\<forall>h \<in> set headers. headerOk h" and "\<forall>h \<in> set footers. headerOk h"
    and "\<not> hostMissing (foldl storeHeader request headers)"
    and "hfind (m_headerIndexByName (foldl storeHeader request headers)) ''Transfer-Encoding'' =
           Some index"
    and "CaselessCmp_equal (m_headers (foldl storeHeader request headers) ! index) ''chunked''"
    and "\<forall>c \<in> set cs. chunkOk c" and "sizeLine lastLine 0"
    and "length (concat (map snd cs)) < 2 ^ 32"
  shows "\<exists>stream'.
           readRequest stream =
             Some (Inr (foldl storeHeader
                          ((foldl storeHeader request headers)
                             \<lparr>m_body := concat (map snd cs)\<rparr>) footers,
                        stream'))"
proof -
  let ?r1 = "foldl storeHeader request headers"
  from readRequest_skip_flowing [OF assms(1) assms(2) assms(3) assms(4)]
  obtain stream0 scratch0 where
    sk: "readRequest_skip stream [] = Some (line, stream0, scratch0)"
    and a0: "avail stream0 scratch0 =
               headerText headers @ chunkedText cs lastLine @ headerText footers @ rest"
    and f0: "flowing stream0"
    by auto
  from readHeaders_flowing [OF f0 a0 assms(10), of request False]
  obtain stream1 scratch1 where
    hd: "readHeaders stream0 request False scratch0 = Inr (?r1, stream1, scratch1)"
    and a1: "avail stream1 scratch1 = chunkedText cs lastLine @ headerText footers @ rest"
    and f1: "flowing stream1"
    by auto
  have body: "m_body ?r1 = []"
    using parseRequestLine_body [OF assms(5)] by (simp add: foldl_storeHeader_fields)
  with assms(17) have len: "length (m_body ?r1 @ concat (map snd cs)) < 2 ^ 32"
    by simp
  from readBody_chunked [OF assms(13) assms(14) f1 a1 assms(15) assms(16) assms(11) len] body
  obtain stream' scratch' where
    rb: "readBody ?r1 stream1 scratch1 =
           Inr (foldl storeHeader (?r1\<lparr>m_body := concat (map snd cs)\<rparr>) footers,
                stream', scratch')"
    by auto
  from assms(13) have "hcount (m_headerIndexByName ?r1) ''Transfer-Encoding'' \<noteq> 0"
    by (simp add: hcount_def)
  with assms(8) assms(9) have nm: "\<not> bodyMismatch ?r1"
    by (simp add: bodyMismatch_def foldl_storeHeader_fields)
  from assms(5) assms(6) assms(7) hd assms(12) nm rb
  have "readRequest_line line stream0 scratch0 =
      Inr (foldl storeHeader (?r1\<lparr>m_body := concat (map snd cs)\<rparr>) footers, stream', scratch')"
    by (simp add: readRequest_line_def)
  with sk show ?thesis
    by (simp add: readRequest_def)
qed

theorem C4_chunked_request_witness:
  "(\<exists>stream'.
      readRequest [''POST / HTTP/1.1 '' @ CRLF @ ''Host: h'' @ CRLF @
          ''Transfer-Encoding:chunked'' @ CRLF @ CRLF @
          ''4'' @ CRLF @ ''Wiki'' @ CRLF @ ''5'' @ CRLF @ ''pedia'' @ CRLF @ ''0'' @ CRLF @ CRLF] =
        Some (Inr (\<lparr>m_method = ''POST'', m_uri = ''/'', m_majorVersion = 1,
            m_minorVersion = 1, m_headers = ['' h'', ''chunked''],
            m_headerIndexByName = [(''Host'', 0), (''Transfer-Encoding'', 1)],
            m_body = ''Wikipedia''\<rparr>, stream'))) \<and>
   (\<exists>stream'.
      readRequest [''POST /wiki HTTP/1.1 '' @ CRLF @ ''Host: h'' @ CRLF @ ''Transfer-Enc'',
          ''oding:Chunked'' @ CRLF @ CRLF @ ''4'' @ CRLF @ ''Wi'',
          ''ki'' @ CRLF @ ''5;ext=1'' @ CRLF @ ''pedia'' @ CRLF @
          ''0E'' @ CRLF @ '' in'' @ CRLF @ CRLF @ ''chunks.'' @ CRLF @
          ''0'' @ CRLF @ ''X-Check: ok'' @ CRLF @ ''host: again'' @ CRLF @ CRLF] =
        Some (Inr (\<lparr>m_method = ''POST'', m_uri = ''/wiki'', m_majorVersion = 1,
            m_minorVersion = 1, m_headers = ['' h, again'', ''Chunked'', '' ok''],
            m_headerIndexByName = [(''Host'', 0), (''Transfer-Encoding'', 1), (''X-Check'', 2)],
            m_body = ''Wikipedia in'' @ CRLF @ CRLF @ ''chunks.''\<rparr>, stream')))"
proof (intro conjI)
  let ?stream = "[''POST / HTTP/1.1 '' @ CRLF @ ''Host: h'' @ CRLF @
          ''Transfer-Encoding:chunked'' @ CRLF @ CRLF @
          ''4'' @ CRLF @ ''Wiki'' @ CRLF @ ''5'' @ CRLF @ ''pedia'' @ CRLF @ ''0'' @ CRLF @ CRLF]"
  let ?line = "''POST / HTTP/1.1 ''"
  let ?request = "newRequest\<lparr>m_method := ''POST'', m_uri := ''/'', m_majorVersion := 1,
    m_minorVersion := 1\<rparr>"
  let ?headers = "[(''Host'', '' h''), (''Transfer-Encoding'', ''chunked'')]"
  let ?cs = "[(''4'', ''Wiki''), (''5'', ''pedia'')]"
  have 1: "flowing ?stream"
    by (simp add: flowing_def)
  have 2: "concat ?stream =
      ?line @ CRLF @ headerText ?headers @ chunkedText ?cs ''0'' @ headerText [] @ []"
    by code_simp
  have 3: "?line \<noteq> []" "CR \<notin> set ?line"
    by code_simp+
  have 4: "parseRequestLine ?line newRequest = Inr ?request"
    by code_simp
  have 5: "isValidToken (m_method ?request)" "\<not> invalidVersion ?request"
    "m_method ?request \<noteq> ''GET''" "m_method ?request \<noteq> ''HEAD''"
    by code_simp+
  have 6: "\<forall>h \<in> set ?headers. headerOk h" "\<forall>h \<in> set []. headerOk h"
    by code_simp+
  have 7: "\<not> hostMissing (foldl storeHeader ?request ?headers)"
    by code_simp
  have 8: "hfind (m_headerIndexByName (foldl storeHeader ?request ?headers))
      ''Transfer-Encoding'' = Some 1"
    by code_simp
  have 9: "CaselessCmp_equal (m_headers (foldl storeHeader ?request ?headers) ! 1) ''chunked''"
    by code_simp
  have 10: "\<forall>c \<in> set ?cs. chunkOk c" "sizeLine ''0'' 0"
    by code_simp+
  have 11: "length (concat (map snd ?cs)) < 2 ^ 32"
    by simp
  have 12: "foldl storeHeader
      ((foldl storeHeader ?request ?headers)\<lparr>m_body := concat (map snd ?cs)\<rparr>) [] =
    \<lparr>m_method = ''POST'', m_uri = ''/'', m_majorVersion = 1,
            m_minorVersion = 1, m_headers = ['' h'', ''chunked''],
            m_headerIndexByName = [(''Host'', 0), (''Transfer-Encoding'', 1)],
            m_body = ''Wikipedia''\<rparr>"
    by code_simp
  from C4_chunked_request [OF 1 2 3 4 5 6 7 8 9 10 11]
  show "\<exists>stream'. readRequest ?stream =
        Some (Inr (\<lparr>m_method = ''POST'', m_uri = ''/'', m_majorVersion = 1,
            m_minorVersion = 1, m_headers = ['' h'', ''chunked''],
            m_headerIndexByName = [(''Host'', 0), (''Transfer-Encoding'', 1)],
            m_body = ''Wikipedia''\<rparr>, stream'))"
    unfolding 12 .
next
  let ?stream = "[''POST /wiki HTTP/1.1 '' @ CRLF @ ''Host: h'' @ CRLF @ ''Transfer-Enc'',
          ''oding:Chunked'' @ CRLF @ CRLF @ ''4'' @ CRLF @ ''Wi'',
          ''ki'' @ CRLF @ ''5;ext=1'' @ CRLF @ ''pedia'' @ CRLF @
          ''0E'' @ CRLF @ '' in'' @ CRLF @ CRLF @ ''chunks.'' @ CRLF @
          ''0'' @ CRLF @ ''X-Check: ok'' @ CRLF @ ''host: again'' @ CRLF @ CRLF]"
  let ?line = "''POST /wiki HTTP/1.1 ''"
  let ?request = "newRequest\<lparr>m_method := ''POST'', m_uri := ''/wiki'', m_majorVersion := 1,
    m_minorVersion := 1\<rparr>"
  let ?headers = "[(''Host'', '' h''), (''Transfer-Encoding'', ''Chunked'')]"
  let ?cs = "[(''4'', ''Wiki''), (''5;ext=1'', ''pedia''),
    (''0E'', '' in'' @ CRLF @ CRLF @ ''chunks.'')]"
  let ?footers = "[(''X-Check'', '' ok''), (''host'', '' again'')]"
  have 1: "flowing ?stream"
    by (simp add: flowing_def)
  have 2: "concat ?stream =
      ?line @ CRLF @ headerText ?headers @ chunkedText ?cs ''0'' @ headerText ?footers @ []"
    by code_simp
  have 3: "?line \<noteq> []" "CR \<notin> set ?line"
    by code_simp+
  have 4: "parseRequestLine ?line newRequest = Inr ?request"
    by code_simp
  have 5: "isValidToken (m_method ?request)" "\<not> invalidVersion ?request"
    "m_method ?request \<noteq> ''GET''" "m_method ?request \<noteq> ''HEAD''"
    by code_simp+
  have 6: "\<forall>h \<in> set ?headers. headerOk h" "\<forall>h \<in> set ?footers. headerOk h"
    by code_simp+
  have 7: "\<not> hostMissing (foldl storeHeader ?request ?headers)"
    by code_simp
  have 8: "hfind (m_headerIndexByName (foldl storeHeader ?request ?headers))
      ''Transfer-Encoding'' = Some 1"
    by code_simp
  have 9: "CaselessCmp_equal (m_headers (foldl storeHeader ?request ?headers) ! 1) ''chunked''"
    by code_simp
  have 10: "\<forall>c \<in> set ?cs. chunkOk c" "sizeLine ''0'' 0"
    by code_simp+
  have 11: "length (concat (map snd ?cs)) < 2 ^ 32"
    by (simp add: CRLF_def)
  have 12: "foldl storeHeader
      ((foldl storeHeader ?request ?headers)\<lparr>m_body := concat (map snd ?cs)\<rparr>) ?footers =
    \<lparr>m_method = ''POST'', m_uri = ''/wiki'', m_majorVersion = 1,
            m_minorVersion = 1, m_headers = ['' h, again'', ''Chunked'', '' ok''],
            m_headerIndexByName = [(''Host'', 0), (''Transfer-Encoding'', 1), (''X-Check'', 2)],
            m_body = ''Wikipedia in'' @ CRLF @ CRLF @ ''chunks.''\<rparr>"
    by code_simp
  from C4_chunked_request [OF 1 2 3 4 5 6 7 8 9 10 11]
  show "\<exists>stream'. readRequest ?stream =
        Some (Inr (\<lparr>m_method = ''POST'', m_uri = ''/wiki'', m_majorVersion = 1,
            m_minorVersion = 1, m_headers = ['' h, again'', ''Chunked'', '' ok''],
            m_headerIndexByName = [(''Host'', 0), (''Transfer-Encoding'', 1), (''X-Check'', 2)],
            m_body = ''Wikipedia in'' @ CRLF @ CRLF @ ''chunks.''\<rparr>, stream'))"
    unfolding 12 .
qed

text \<open>
  C1 as amended: for a request whose method is not GET or HEAD and that has passed the
  checks before it, the framing check rejects with 400 exactly when neither a
  Transfer-Encoding nor a Content-Length header is present; with one of them or both the
  check passes and the result is that of reading the body.  The body is read by
  Transfer-Encoding when that header is present, whatever Content-Length says or whether
  it is there at all: a stored value other than \<open>chunked\<close> (compared without regard
  to case) gives 501, and with \<open>chunked\<close> the body is the data of the chunks and the
  footers are stored.  Only when Transfer-Encoding is absent is Content-Length used: the
  body is then the next bytes of the input, as many as the header's number says.
\<close>

theorem C1_framing_check:
  assumes "parseRequestLine line newRequest = Inr request"
    and "isValidToken (m_method request)"
    and "\<not> invalidVersion request"
    and "readHeaders stream request False scratch = Inr (request1, stream1, scratch1)"
    and "\<not> hostMissing request1"
    and "m_method request1 \<noteq> ''GET''" and "m_method request1 \<noteq> ''HEAD''"
  shows "readRequest_line line stream scratch =
     (if hcount (m_headerIndexByName request1) ''Transfer-Encoding'' = 0 \<and>
         hcount (m_headerIndexByName request1) ''Content-Length'' = 0
      then Inl (XHTTP 400)
      else readBody request1 stream1 scratch1) \<and>
    (hfind (m_headerIndexByName request1) ''Transfer-Encoding'' = None \<and>
     hfind (m_headerIndexByName request1) ''Content-Length'' = None \<longrightarrow>
       readRequest_line line stream scratch = Inl (XHTTP 400)) \<and>
    (\<forall>index. hfind (m_headerIndexByName request1) ''Transfer-Encoding'' = Some index \<and>
       \<not> CaselessCmp_equal (m_headers request1 ! index) ''chunked'' \<longrightarrow>
       readRequest_line line stream scratch = Inl (XHTTP 501)) \<and>
    (\<forall>index cs lastLine footers rest.
       hfind (m_headerIndexByName request1) ''Transfer-Encoding'' = Some index \<and>
       CaselessCmp_equal (m_headers request1 ! index) ''chunked'' \<and>
       flowing stream1 \<and>
       avail stream1 scratch1 = chunkedText cs lastLine @ headerText footers @ rest \<and>
       (\<forall>c \<in> set cs. chunkOk c) \<and> sizeLine lastLine 0 \<and>
       (\<forall>h \<in> set footers. headerOk h) \<and>
       length (m_body request1 @ concat (map snd cs)) < 2 ^ 32 \<longrightarrow>
       (\<exists>stream' scratch'.
          readRequest_line line stream scratch =
            Inr (foldl storeHeader
                   (request1\<lparr>m_body := m_body request1 @ concat (map snd cs)\<rparr>) footers,
                 stream', scratch') \<and>
          avail stream' scratch' = rest)) \<and>
    (\<forall>index len s.
       hfind (m_headerIndexByName request1) ''Transfer-Encoding'' = None \<and>
       hfind (m_headerIndexByName request1) ''Content-Length'' = Some index \<and>
       extract_UInt32 10 (istringstream_of (m_headers request1 ! index)) = (len, s) \<and>
       \<not> failbit s \<and> 0 < len \<and> flowing stream1 \<and>
       len \<le> length (avail stream1 scratch1) \<longrightarrow>
       (\<exists>stream' scratch'.
          readRequest_line line stream scratch =
            Inr (request1\<lparr>m_body := take len (avail stream1 scratch1)\<rparr>, stream', scratch') \<and>
          avail stream' scratch' = drop len (avail stream1 scratch1)))"
  (is "?A \<and> ?B \<and> ?C \<and> ?D \<and> ?E")
proof -
  have a: ?A
    using assms by (simp add: readRequest_line_def bodyMismatch_def)
  have b: ?B
    using a by (simp add: hcount_def)
  have c: ?C
  proof (intro allI impI)
    fix index
    assume h: "hfind (m_headerIndexByName request1) ''Transfer-Encoding'' = Some index \<and>
       \<not> CaselessCmp_equal (m_headers request1 ! index) ''chunked''"
    then have "readBody request1 stream1 scratch1 = Inl (XHTTP 501)"
      by (simp add: readBody_def)
    with a h show "readRequest_line line stream scratch = Inl (XHTTP 501)"
      by (simp add: hcount_def)
  qed
  have d: ?D
  proof (intro allI impI, elim conjE)
    fix index cs lastLine footers rest
    assume 1: "hfind (m_headerIndexByName request1) ''Transfer-Encoding'' = Some index"
      and 2: "CaselessCmp_equal (m_headers request1 ! index) ''chunked''"
      and 3: "flowing stream1"
      and 4: "avail stream1 scratch1 = chunkedText cs lastLine @ headerText footers @ rest"
      and 5: "\<forall>c \<in> set cs. chunkOk c" and 6: "sizeLine lastLine 0"
      and 7: "\<forall>h \<in> set footers. headerOk h"
      and 8: "length (m_body request1 @ concat (map snd cs)) < 2 ^ 32"
    from readBody_chunked [OF 1 2 3 4 5 6 7 8]
    obtain stream' scratch' where
      r: "readBody request1 stream1 scratch1 =
             Inr (foldl storeHeader
                    (request1\<lparr>m_body := m_body request1 @ concat (map snd cs)\<rparr>) footers,
                  stream', scratch')"
      and v: "avail stream' scratch' = rest"
      by auto
    from a 1 have "readRequest_line line stream scratch = readBody request1 stream1 scratch1"
      by (simp add: hcount_def)
    with r v show "\<exists>stream' scratch'.
          readRequest_line line stream scratch =
            Inr (foldl storeHeader
                   (request1\<lparr>m_body := m_body request1 @ concat (map snd cs)\<rparr>) footers,
                 stream', scratch') \<and>
          avail stream' scratch' = rest"
      by simp
  qed
  have e: ?E
  proof (intro allI impI, elim conjE)
    fix index len s
    assume 1: "hfind (m_headerIndexByName request1) ''Transfer-Encoding'' = None"
      and 2: "hfind (m_headerIndexByName request1) ''Content-Length'' = Some index"
      and 3: "extract_UInt32 10 (istringstream_of (m_headers request1 ! index)) = (len, s)"
      and 4: "\<not> failbit s" and 5: "0 < len" and 6: "flowing stream1"
      and 7: "len \<le> length (avail stream1 scratch1)"
    from readBody_length [OF 1 2 3 4 5 6 7]
    obtain stream' scratch' where
      r: "readBody request1 stream1 scratch1 =
             Inr (request1\<lparr>m_body := take len (avail stream1 scratch1)\<rparr>, stream', scratch')"
      and v: "avail stream' scratch' = drop len (avail stream1 scratch1)"
      by auto
    from a 2 have "readRequest_line line stream scratch = readBody request1 stream1 scratch1"
      by (simp add: hcount_def)
    with r v show "\<exists>stream' scratch'.
          readRequest_line line stream scratch =
            Inr (request1\<lparr>m_body := take len (avail stream1 scratch1)\<rparr>, stream', scratch') \<and>
          avail stream' scratch' = drop len (avail stream1 scratch1)"
      by simp
  qed
  from a b c d e show ?thesis
    by blast
qed

theorem C1_framing_check_witness:
  "(\<exists>stream' scratch'.
      readRequest_line ''POST / HTTP/1.1 ''
        [''Host: h'' @ CRLF @ ''Transfer-Encoding:chunked'' @ CRLF @ ''Content-Length: 3'' @ CRLF @
         CRLF @ ''4'' @ CRLF @ ''Wiki'' @ CRLF @ ''5'' @ CRLF @ ''pedia'' @ CRLF @ ''0'' @ CRLF @
         ''X-Check: ok'' @ CRLF @ CRLF @ ''next''] [] =
        Inr (\<lparr>m_method = ''POST'', m_uri = ''/'', m_majorVersion = 1, m_minorVersion = 1,
          m_headers = ['' h'', ''chunked'', '' 3'', '' ok''],
          m_headerIndexByName =
            [(''Host'', 0), (''Transfer-Encoding'', 1), (''Content-Length'', 2), (''X-Check'', 3)],
          m_body = ''Wikipedia''\<rparr>, stream', scratch') \<and>
      avail stream' scratch' = ''next'') \<and>
   readRequest_line ''POST / HTTP/1.1 ''
     [''Host: h'' @ CRLF @ ''Transfer-Encoding: chunked'' @ CRLF @ ''Content-Length: 3'' @ CRLF @
      CRLF @ ''abc''] [] = Inl (XHTTP 501) \<and>
   readRequest_line ''POST / HTTP/1.1 '' [''Host: h'' @ CRLF @ CRLF @ ''abc''] [] =
     Inl (XHTTP 400) \<and>
   (\<exists>stream' scratch'.
      readRequest_line ''POST / HTTP/1.1 ''
        [''Host: h'' @ CRLF @ ''Content-Length: 3'' @ CRLF @ CRLF @ ''abcdef''] [] =
        Inr (\<lparr>m_method = ''POST'', m_uri = ''/'', m_majorVersion = 1, m_minorVersion = 1,
          m_headers = ['' h'', '' 3''],
          m_headerIndexByName = [(''Host'', 0), (''Content-Length'', 1)],
          m_body = ''abc''\<rparr>, stream', scratch') \<and>
      avail stream' scratch' = ''def'')"
proof -
  let ?line = "''POST / HTTP/1.1 ''"
  let ?r = "newRequest\<lparr>m_method := ''POST'', m_uri := ''/'', m_majorVersion := 1,
    m_minorVersion := 1\<rparr>"
  have p: "parseRequestLine ?line newRequest = Inr ?r"
    by code_simp
  have v: "isValidToken (m_method ?r)"
    by code_simp
  have i: "\<not> invalidVersion ?r"
    by code_simp
  note check = C1_framing_check [OF p v i]

  let ?s1 = "[''Host: h'' @ CRLF @ ''Transfer-Encoding:chunked'' @ CRLF @
         ''Content-Length: 3'' @ CRLF @
         CRLF @ ''4'' @ CRLF @ ''Wiki'' @ CRLF @ ''5'' @ CRLF @ ''pedia'' @ CRLF @ ''0'' @ CRLF @
         ''X-Check: ok'' @ CRLF @ CRLF @ ''next'']"
  let ?r1 = "\<lparr>m_method = ''POST'', m_uri = ''/'', m_majorVersion = 1, m_minorVersion = 1,
      m_headers = ['' h'', ''chunked'', '' 3''],
      m_headerIndexByName =
        [(''Host'', 0), (''Transfer-Encoding'', 1), (''Content-Length'', 2)],
      m_body = []\<rparr>"
  let ?t1 = "''4'' @ CRLF @ ''Wiki'' @ CRLF @ ''5'' @ CRLF @ ''pedia'' @ CRLF @ ''0'' @ CRLF @
         ''X-Check: ok'' @ CRLF @ CRLF @ ''next''"
  let ?cs = "[(''4'', ''Wiki''), (''5'', ''pedia'')]"
  let ?footers = "[(''X-Check'', '' ok'')]"
  have h1: "readHeaders ?s1 ?r False [] = Inr (?r1, [], ?t1)"
    by code_simp
  have m1: "\<not> hostMissing ?r1"
    by code_simp
  have g1: "m_method ?r1 \<noteq> ''GET''" "m_method ?r1 \<noteq> ''HEAD''"
    by simp_all
  have c1: "hfind (m_headerIndexByName ?r1) ''Transfer-Encoding'' = Some 1 \<and>
       CaselessCmp_equal (m_headers ?r1 ! 1) ''chunked'' \<and>
       flowing [] \<and>
       avail [] ?t1 = chunkedText ?cs ''0'' @ headerText ?footers @ ''next'' \<and>
       (\<forall>c \<in> set ?cs. chunkOk c) \<and> sizeLine ''0'' 0 \<and>
       (\<forall>h \<in> set ?footers. headerOk h) \<and>
       length (m_body ?r1 @ concat (map snd ?cs)) < 2 ^ 32"
    by (intro conjI) (code_simp, code_simp, simp add: flowing_def, code_simp, code_simp,
      code_simp, code_simp, simp)
  have f1: "foldl storeHeader (?r1\<lparr>m_body := m_body ?r1 @ concat (map snd ?cs)\<rparr>) ?footers =
      \<lparr>m_method = ''POST'', m_uri = ''/'', m_majorVersion = 1, m_minorVersion = 1,
          m_headers = ['' h'', ''chunked'', '' 3'', '' ok''],
          m_headerIndexByName =
            [(''Host'', 0), (''Transfer-Encoding'', 1), (''Content-Length'', 2), (''X-Check'', 3)],
          m_body = ''Wikipedia''\<rparr>"
    by code_simp
  have 1: "\<exists>stream' scratch'.
      readRequest_line ?line ?s1 [] =
        Inr (\<lparr>m_method = ''POST'', m_uri = ''/'', m_majorVersion = 1, m_minorVersion = 1,
          m_headers = ['' h'', ''chunked'', '' 3'', '' ok''],
          m_headerIndexByName =
            [(''Host'', 0), (''Transfer-Encoding'', 1), (''Content-Length'', 2), (''X-Check'', 3)],
          m_body = ''Wikipedia''\<rparr>, stream', scratch') \<and>
      avail stream' scratch' = ''next''"
    using check [OF h1 m1 g1, THEN conjunct2, THEN conjunct2, THEN conjunct2, THEN conjunct1,
        rule_format, OF c1]
    unfolding f1 .

  let ?s2 = "[''Host: h'' @ CRLF @ ''Transfer-Encoding: chunked'' @ CRLF @
      ''Content-Length: 3'' @ CRLF @ CRLF @ ''abc'']"
  let ?r2 = "\<lparr>m_method = ''POST'', m_uri = ''/'', m_majorVersion = 1, m_minorVersion = 1,
      m_headers = ['' h'', '' chunked'', '' 3''],
      m_headerIndexByName =
        [(''Host'', 0), (''Transfer-Encoding'', 1), (''Content-Length'', 2)],
      m_body = []\<rparr>"
  have h2: "readHeaders ?s2 ?r False [] = Inr (?r2, [], ''abc'')"
    by code_simp
  have m2: "\<not> hostMissing ?r2"
    by code_simp
  have g2: "m_method ?r2 \<noteq> ''GET''" "m_method ?r2 \<noteq> ''HEAD''"
    by simp_all
  have c2: "hfind (m_headerIndexByName ?r2) ''Transfer-Encoding'' = Some 1 \<and>
       \<not> CaselessCmp_equal (m_headers ?r2 ! 1) ''chunked''"
    by (intro conjI) code_simp+
  have 2: "readRequest_line ?line ?s2 [] = Inl (XHTTP 501)"
    using check [OF h2 m2 g2, THEN conjunct2, THEN conjunct2, THEN conjunct1,
        rule_format, OF c2] .

  let ?s3 = "[''Host: h'' @ CRLF @ CRLF @ ''abc'']"
  let ?r3 = "\<lparr>m_method = ''POST'', m_uri = ''/'', m_majorVersion = 1, m_minorVersion = 1,
      m_headers = ['' h''], m_headerIndexByName = [(''Host'', 0)], m_body = []\<rparr>"
  have h3: "readHeaders ?s3 ?r False [] = Inr (?r3, [], ''abc'')"
    by code_simp
  have m3: "\<not> hostMissing ?r3"
    by code_simp
  have g3: "m_method ?r3 \<noteq> ''GET''" "m_method ?r3 \<noteq> ''HEAD''"
    by simp_all
  have c3: "hfind (m_headerIndexByName ?r3) ''Transfer-Encoding'' = None \<and>
     hfind (m_headerIndexByName ?r3) ''Content-Length'' = None"
    by (intro conjI) code_simp+
  have 3: "readRequest_line ?line ?s3 [] = Inl (XHTTP 400)"
    using check [OF h3 m3 g3, THEN conjunct2, THEN conjunct1, rule_format, OF c3] .

  let ?s4 = "[''Host: h'' @ CRLF @ ''Content-Length: 3'' @ CRLF @ CRLF @ ''abcdef'']"
  let ?r4 = "\<lparr>m_method = ''POST'', m_uri = ''/'', m_majorVersion = 1, m_minorVersion = 1,
      m_headers = ['' h'', '' 3''],
      m_headerIndexByName = [(''Host'', 0), (''Content-Length'', 1)], m_body = []\<rparr>"
  have h4: "readHeaders ?s4 ?r False [] = Inr (?r4, [], ''abcdef'')"
    by code_simp
  have m4: "\<not> hostMissing ?r4"
    by code_simp
  have g4: "m_method ?r4 \<noteq> ''GET''" "m_method ?r4 \<noteq> ''HEAD''"
    by simp_all
  have c4: "hfind (m_headerIndexByName ?r4) ''Transfer-Encoding'' = None \<and>
       hfind (m_headerIndexByName ?r4) ''Content-Length'' = Some 1 \<and>
       extract_UInt32 10 (istringstream_of (m_headers ?r4 ! 1)) =
         (3, \<lparr>buf = [], eofbit = True, failbit = False\<rparr>) \<and>
       \<not> failbit \<lparr>buf = [], eofbit = True, failbit = False\<rparr> \<and> 0 < (3::nat) \<and> flowing [] \<and>
       3 \<le> length (avail [] ''abcdef'')"
    by (intro conjI) (code_simp, code_simp, code_simp, simp, simp, simp add: flowing_def,
      simp add: avail_def)
  have f4: "?r4\<lparr>m_body := take 3 (avail [] ''abcdef'')\<rparr> =
      \<lparr>m_method = ''POST'', m_uri = ''/'', m_majorVersion = 1, m_minorVersion = 1,
          m_headers = ['' h'', '' 3''],
          m_headerIndexByName = [(''Host'', 0), (''Content-Length'', 1)],
          m_body = ''abc''\<rparr>"
    "drop 3 (avail [] ''abcdef'') = ''def''"
    by (simp_all add: avail_def)
  have 4: "\<exists>stream' scratch'.
      readRequest_line ?line ?s4 [] =
        Inr (\<lparr>m_method = ''POST'', m_uri = ''/'', m_majorVersion = 1, m_minorVersion = 1,
          m_headers = ['' h'', '' 3''],
          m_headerIndexByName = [(''Host'', 0), (''Content-Length'', 1)],
          m_body = ''abc''\<rparr>, stream', scratch') \<and>
      avail stream' scratch' = ''def''"
    using check [OF h4 m4 g4, THEN conjunct2, THEN conjunct2, THEN conjunct2, THEN conjunct2,
        rule_format, OF c4]
    unfolding f4 .
  from 1 2 3 4 show ?thesis
    by (intro conjI)
qed

section \<open>CHTTPProtocol::reply\<close>

text \<open>
  The reply.  Its fields carry the suffix \<open>_reply\<close> where the request has a field of
  the same name.  \<open>CHeaderList\<close> of a reply is a list of name and value pairs.
\<close>

record CHTTPReply =
  m_majorVersion_reply :: int
  m_minorVersion_reply :: int
  m_status :: int
  m_reason :: CString
  m_method_reply :: CString
  m_headers_reply :: "(CString \<times> CString) list"
  m_body_reply :: CString

text \<open>Integer division of C++ truncates towards zero.\<close>

definition cdiv :: "int \<Rightarrow> int \<Rightarrow> int" where
  "cdiv a b = sgn a * sgn b * (\<bar>a\<bar> div \<bar>b\<bar>)"

text \<open>What \<open>operator<<\<close> prints for an unsigned and for a signed integer.\<close>

function decimal :: "nat \<Rightarrow> CString" where
  "decimal n = (if n < 10 then [char_of (48 + n)] else decimal (n div 10) @ [char_of (48 + n mod 10)])"
  by pat_completeness auto
termination
  by (relation "measure (\<lambda>n. n)") auto

declare decimal.simps [simp del]

definition decimal_int :: "int \<Rightarrow> CString" where
  "decimal_int i = (if i < 0 then ''-'' @ decimal (nat (- i)) else decimal (nat i))"

text \<open>The loop that erases the headers the writer sets itself.\<close>

fun adjustHeaders :: "(CString \<times> CString) list \<Rightarrow> (CString \<times> CString) list" where
  "adjustHeaders [] = []"
| "adjustHeaders ((header, v) # rest) =
     (if CaselessCmp_equal header ''Content-Length'' \<or>
         CaselessCmp_equal header ''Date'' \<or>
         CaselessCmp_equal header ''Transfer-Encoding''
      then adjustHeaders rest
      else (header, v) # adjustHeaders rest)"

definition hasBody :: "CHTTPReply \<Rightarrow> bool" where
  "hasBody r = (\<not> (cdiv (m_status r) 100 = 1 \<or> m_status r = 204 \<or> m_status r = 304))"

definition statusLine :: "CHTTPReply \<Rightarrow> CString" where
  "statusLine r =
     ''HTTP/'' @ decimal_int (m_majorVersion_reply r) @ ''.'' @
     decimal_int (m_minorVersion_reply r) @ '' '' @ decimal_int (m_status r) @ '' '' @
     m_reason r @ CRLF"

definition headerLines :: "(CString \<times> CString) list \<Rightarrow> CString" where
  "headerLines hs = concat (map (\<lambda>(name, v). name @ '': '' @ v @ CRLF) hs)"

text \<open>
  \<open>reply(stream, reply)\<close> with the date string \<open>strftime\<close> produced: the result is the
  list of the blocks written to the stream, one per \<open>write\<close>, and the reply with its
  header list as the call leaves it.
\<close>

definition reply :: "CString \<Rightarrow> CHTTPReply \<Rightarrow> CString list \<times> CHTTPReply" where
  "reply date r =
     (let r1 = r\<lparr>m_headers_reply := adjustHeaders (m_headers_reply r)\<rparr>;
          s = statusLine r1 @
              ''Date: '' @ date @ CRLF @
              headerLines (m_headers_reply r1) @
              (if hasBody r then ''Content-Length: '' @ decimal (length (m_body_reply r1)) @ CRLF
               else []) @
              ''Connection: close'' @ CRLF @
              CRLF
      in (if hasBody r \<and> m_method_reply r1 \<noteq> ''HEAD'' then [s, m_body_reply r1] else [s], r1))"

lemma adjustHeaders_no_Content_Length:
  "(name, v) \<in> set (adjustHeaders hs) \<Longrightarrow> \<not> CaselessCmp_equal name ''Content-Length''"
  by (induction hs rule: adjustHeaders.induct) (auto split: if_splits)

lemma cdiv_100_eq_1: "cdiv status 100 = 1 \<longleftrightarrow> 100 \<le> status \<and> status \<le> 199"
proof (cases "status < 0")
  case True
  have "0 \<le> \<bar>status\<bar> div 100"
    by simp
  with True have "cdiv status 100 \<le> 0"
    by (simp add: cdiv_def sgn_if)
  with True show ?thesis by simp
next
  case False
  then have "cdiv status 100 = status div 100"
    by (simp add: cdiv_def sgn_if)
  then show ?thesis by auto
qed

text \<open>
  C6, which holds in an amended form.  The claim: for a status of 1xx, 204 or 304 the writer leaves the body
  out but still sends a Content-Length header.  The code writes the Content-Length line
  under \<open>if (hasBody)\<close>, so for these statuses it sends neither: a 204 reply with a
  body of three bytes goes out as the status line, the date and \<open>Connection: close\<close>.
\<close>

theorem C6_no_Content_Length_for_204:
  "fst (reply ''Thu, 01 Jan 1970 00:00:00 GMT''
     \<lparr>m_majorVersion_reply = 1, m_minorVersion_reply = 1, m_status = 204,
      m_reason = ''No Content'', m_method_reply = ''GET'', m_headers_reply = [],
      m_body_reply = ''abc''\<rparr>) =
   [''HTTP/1.1 204 No Content'' @ CRLF @ ''Date: Thu, 01 Jan 1970 00:00:00 GMT'' @ CRLF @
    ''Connection: close'' @ CRLF @ CRLF]"
  by code_simp

lemma CaselessCmp_equal_iff:
  "CaselessCmp_equal a b \<longleftrightarrow>
     map (\<lambda>c. tolower (char_value c)) a = map (\<lambda>c. tolower (char_value c)) b"
  unfolding CaselessCmp_equal_def
  by (induction a b rule: CaselessCmp_less.induct) (auto simp: cmpLess_def)

lemma adjustHeaders_filter:
  "adjustHeaders hs =
     filter (\<lambda>(name, v). \<not> CaselessCmp_equal name ''Content-Length'' \<and>
                          \<not> CaselessCmp_equal name ''Date'' \<and>
                          \<not> CaselessCmp_equal name ''Transfer-Encoding'') hs"
  by (induction hs rule: adjustHeaders.induct) auto

text \<open>
  C6 as amended: for every reply whose status is 1xx, 204 or 304 the writer makes one
  \<open>write\<close>, of the status line, the date, the headers it kept and
  \<open>Connection: close\<close>: the body is not written, the writer adds no Content-Length
  line, and none of the headers it kept is named Content-Length.  The headers it kept
  are the caller's headers, in their order, without those named Content-Length, Date or
  Transfer-Encoding; a name is one of these when it has the same letters, upper or lower
  case.  The reply object is left with the kept headers as its header list.
\<close>

theorem C6_suppressed_body:
  assumes "(100 \<le> m_status r \<and> m_status r \<le> 199) \<or> m_status r = 204 \<or> m_status r = 304"
  shows "fst (reply date r) =
           [statusLine r @ ''Date: '' @ date @ CRLF @
            headerLines (adjustHeaders (m_headers_reply r)) @
            ''Connection: close'' @ CRLF @ CRLF] \<and>
         (\<forall>(name, v) \<in> set (adjustHeaders (m_headers_reply r)).
            \<not> CaselessCmp_equal name ''Content-Length'') \<and>
         fst (reply date r) =
           [''HTTP/'' @ decimal_int (m_majorVersion_reply r) @ ''.'' @
            decimal_int (m_minorVersion_reply r) @ '' '' @ decimal_int (m_status r) @ '' '' @
            m_reason r @ CRLF @
            ''Date: '' @ date @ CRLF @
            concat (map (\<lambda>(name, v). name @ '': '' @ v @ CRLF)
              (filter (\<lambda>(name, v).
                   map (\<lambda>c. tolower (char_value c)) name \<notin>
                     {map (\<lambda>c. tolower (char_value c)) ''Content-Length'',
                      map (\<lambda>c. tolower (char_value c)) ''Date'',
                      map (\<lambda>c. tolower (char_value c)) ''Transfer-Encoding''})
                 (m_headers_reply r))) @
            ''Connection: close'' @ CRLF @ CRLF] \<and>
         snd (reply date r) =
           r\<lparr>m_headers_reply :=
               filter (\<lambda>(name, v). \<not> CaselessCmp_equal name ''Content-Length'' \<and>
                                    \<not> CaselessCmp_equal name ''Date'' \<and>
                                    \<not> CaselessCmp_equal name ''Transfer-Encoding'')
                 (m_headers_reply r)\<rparr>"
  (is "?A \<and> ?B \<and> ?C \<and> ?D")
proof -
  from assms have nb: "\<not> hasBody r"
    by (auto simp: hasBody_def cdiv_100_eq_1)
  then have a: ?A
    by (simp add: reply_def Let_def statusLine_def)
  have b: ?B
    using adjustHeaders_no_Content_Length by blast
  have "adjustHeaders (m_headers_reply r) =
      filter (\<lambda>(name, v).
                   map (\<lambda>c. tolower (char_value c)) name \<notin>
                     {map (\<lambda>c. tolower (char_value c)) ''Content-Length'',
                      map (\<lambda>c. tolower (char_value c)) ''Date'',
                      map (\<lambda>c. tolower (char_value c)) ''Transfer-Encoding''})
                 (m_headers_reply r)"
    unfolding adjustHeaders_filter CaselessCmp_equal_iff
    by (intro filter_cong refl) auto
  with a have c: ?C
    by (simp only: statusLine_def headerLines_def append_assoc)
  have d: ?D
    by (simp add: reply_def Let_def adjustHeaders_filter)
  from a b c d show ?thesis
    by blast
qed

theorem C6_suppressed_body_witness:
  "fst (reply ''D''
     \<lparr>m_majorVersion_reply = 1, m_minorVersion_reply = 0, m_status = 304,
      m_reason = ''Not Modified'', m_method_reply = ''GET'',
      m_headers_reply = [(''content-length'', ''3''), (''DATE'', ''yesterday''), (''X-A'', ''b''),
        (''Transfer-encoding'', ''chunked''), (''Dates'', ''c'')],
      m_body_reply = ''abc''\<rparr>) =
   [''HTTP/1.0 304 Not Modified'' @ CRLF @ ''Date: D'' @ CRLF @ ''X-A: b'' @ CRLF @
    ''Dates: c'' @ CRLF @ ''Connection: close'' @ CRLF @ CRLF]"
  (is "fst (reply ''D'' ?r) = ?out")
proof -
  have s: "(100 \<le> m_status ?r \<and> m_status ?r \<le> 199) \<or> m_status ?r = 204 \<or> m_status ?r = 304"
    by simp
  have l: "statusLine ?r = ''HTTP/1.0 304 Not Modified'' @ CRLF"
    by code_simp
  have h: "headerLines (adjustHeaders (m_headers_reply ?r)) =
      ''X-A: b'' @ CRLF @ ''Dates: c'' @ CRLF"
    by code_simp
  from C6_suppressed_body [OF s, of "''D''", THEN conjunct1] l h show ?thesis
    by simp
qed


section \<open>CXWindowsSecondaryScreen: the data\<close>

text \<open>
  \<open>KeyCode\<close> is an unsigned byte, \<open>KeySym\<close>, \<open>KeyID\<close>, \<open>KeyModifierMask\<close> and the X
  modifier masks are unsigned 32-bit values.  \<open>m_keys\<close> is \<open>bool[256]\<close> and is only
  indexed by a \<open>KeyCode\<close>, so it is a function of the key code.
\<close>

type_synonym KeyCode = "8 word"
type_synonym KeySym = "32 word"
type_synonym KeyID = "32 word"
type_synonym KeyModifierMask = "32 word"

datatype EKeyAction = kPress | kRelease | kRepeat

record Keystroke =
  m_keycode :: KeyCode
  m_press :: bool
  m_repeat :: bool

record KeyCodeMask =
  m_keycode_entry :: KeyCode
  m_keyMask :: "32 word"
  m_keyMaskMask :: "32 word"

record CXWindowsSecondaryScreen =
  m_numLockHalfDuplex :: bool
  m_capsLockHalfDuplex :: bool
  m_keys :: "KeyCode \<Rightarrow> bool"
  m_mask :: "32 word"
  m_modifierMask :: "32 word"
  m_toggleModifierMask :: "32 word"
  m_numLockMask :: "32 word"
  m_capsLockMask :: "32 word"
  m_scrollLockMask :: "32 word"
  m_keysPerModifier :: nat
  m_modifierToKeycode :: "KeyCode list"
  m_keycodeToModifier :: "KeyCode \<Rightarrow> nat option"
  m_keycodeMap :: "KeySym \<Rightarrow> KeyCodeMask option"

text \<open>The constants of \<open>X11/X.h\<close>, \<open>X11/keysymdef.h\<close> and \<open>KeyTypes.h\<close> the code names.\<close>

definition ShiftMask :: "32 word" where "ShiftMask = 0x01"
definition LockMask :: "32 word" where "LockMask = 0x02"
definition ControlMask :: "32 word" where "ControlMask = 0x04"
definition Mod1Mask :: "32 word" where "Mod1Mask = 0x08"
definition Mod4Mask :: "32 word" where "Mod4Mask = 0x40"

definition KeyModifierShift :: KeyModifierMask where "KeyModifierShift = 0x0001"
definition KeyModifierControl :: KeyModifierMask where "KeyModifierControl = 0x0002"
definition KeyModifierAlt :: KeyModifierMask where "KeyModifierAlt = 0x0004"
definition KeyModifierMeta :: KeyModifierMask where "KeyModifierMeta = 0x0008"
definition KeyModifierCapsLock :: KeyModifierMask where "KeyModifierCapsLock = 0x1000"
definition KeyModifierNumLock :: KeyModifierMask where "KeyModifierNumLock = 0x2000"
definition KeyModifierScrollLock :: KeyModifierMask where "KeyModifierScrollLock = 0x4000"

definition kKeyLeftTab :: KeyID where "kKeyLeftTab = 0xEE20"
definition kKeyCapsLock :: KeyID where "kKeyCapsLock = 0xEFE5"
definition kKeyNumLock :: KeyID where "kKeyNumLock = 0xEF7F"

definition XK_ISO_Left_Tab :: KeySym where "XK_ISO_Left_Tab = 0xFE20"
definition XK_Tab :: KeySym where "XK_Tab = 0xFF09"
definition XK_Home :: KeySym where "XK_Home = 0xFF50"
definition XK_Left :: KeySym where "XK_Left = 0xFF51"
definition XK_Up :: KeySym where "XK_Up = 0xFF52"
definition XK_Right :: KeySym where "XK_Right = 0xFF53"
definition XK_Down :: KeySym where "XK_Down = 0xFF54"
definition XK_Prior :: KeySym where "XK_Prior = 0xFF55"
definition XK_Next :: KeySym where "XK_Next = 0xFF56"
definition XK_End :: KeySym where "XK_End = 0xFF57"
definition XK_Insert :: KeySym where "XK_Insert = 0xFF63"
definition XK_Delete :: KeySym where "XK_Delete = 0xFFFF"
definition XK_KP_Space :: KeySym where "XK_KP_Space = 0xFF80"
definition XK_KP_Home :: KeySym where "XK_KP_Home = 0xFF95"
definition XK_KP_Left :: KeySym where "XK_KP_Left = 0xFF96"
definition XK_KP_Up :: KeySym where "XK_KP_Up = 0xFF97"
definition XK_KP_Right :: KeySym where "XK_KP_Right = 0xFF98"
definition XK_KP_Down :: KeySym where "XK_KP_Down = 0xFF99"
definition XK_KP_Prior :: KeySym where "XK_KP_Prior = 0xFF9A"
definition XK_KP_Next :: KeySym where "XK_KP_Next = 0xFF9B"
definition XK_KP_End :: KeySym where "XK_KP_End = 0xFF9C"
definition XK_KP_Insert :: KeySym where "XK_KP_Insert = 0xFF9E"
definition XK_KP_Delete :: KeySym where "XK_KP_Delete = 0xFF9F"
definition XK_KP_Equal :: KeySym where "XK_KP_Equal = 0xFFBD"

definition IsKeypadKey :: "KeySym \<Rightarrow> bool" where
  "IsKeypadKey keysym = (keysym \<ge> XK_KP_Space \<and> keysym \<le> XK_KP_Equal)"

definition IsPrivateKeypadKey :: "KeySym \<Rightarrow> bool" where
  "IsPrivateKeypadKey keysym = (keysym \<ge> 0x11000000 \<and> keysym \<le> 0x1100FFFF)"

section \<open>CXWindowsSecondaryScreen::maskToX and findKeyCode\<close>

definition maskToX :: "CXWindowsSecondaryScreen \<Rightarrow> KeyModifierMask \<Rightarrow> 32 word" where
  "maskToX st inMask =
     (if inMask AND KeyModifierShift \<noteq> 0 then ShiftMask else 0) OR
     (if inMask AND KeyModifierControl \<noteq> 0 then ControlMask else 0) OR
     (if inMask AND KeyModifierAlt \<noteq> 0 then Mod1Mask else 0) OR
     (if inMask AND KeyModifierMeta \<noteq> 0 then Mod4Mask else 0) OR
     (if inMask AND KeyModifierCapsLock \<noteq> 0 then m_capsLockMask st else 0) OR
     (if inMask AND KeyModifierNumLock \<noteq> 0 then m_numLockMask st else 0) OR
     (if inMask AND KeyModifierScrollLock \<noteq> 0 then m_scrollLockMask st else 0)"

text \<open>The key id as a keysym; 0 is the unknown key.\<close>

definition idToKeysym :: "KeyID \<Rightarrow> KeySym" where
  "idToKeysym keyId =
     (if keyId AND 0xffffff00 = 0x0000 then keyId
      else if keyId AND 0xffffff00 = 0xee00 then
        (if keyId = kKeyLeftTab then XK_ISO_Left_Tab else 0)
      else if keyId AND 0xffffff00 = 0xef00 then keyId - 0xef00 + 0xff00
      else 0)"

text \<open>
  The backup keysym tried when the keysym has no entry in the map, with the mask to look
  it up under; \<open>None\<close> is the \<open>default\<close> case.
\<close>

definition backupKeysym :: "KeySym \<Rightarrow> 32 word \<Rightarrow> (KeySym \<times> 32 word) option" where
  "backupKeysym keysym maskIn =
     (if keysym = XK_KP_Home then Some (XK_Home, maskIn)
      else if keysym = XK_KP_Left then Some (XK_Left, maskIn)
      else if keysym = XK_KP_Up then Some (XK_Up, maskIn)
      else if keysym = XK_KP_Right then Some (XK_Right, maskIn)
      else if keysym = XK_KP_Down then Some (XK_Down, maskIn)
      else if keysym = XK_KP_Prior then Some (XK_Prior, maskIn)
      else if keysym = XK_KP_Next then Some (XK_Next, maskIn)
      else if keysym = XK_KP_End then Some (XK_End, maskIn)
      else if keysym = XK_KP_Insert then Some (XK_Insert, maskIn)
      else if keysym = XK_KP_Delete then Some (XK_Delete, maskIn)
      else if keysym = XK_ISO_Left_Tab then Some (XK_Tab, maskIn OR ShiftMask)
      else None)"

text \<open>
  The output mask computed once the entry of the keysym is found.  \<open>XConvertCase\<close>
  belongs to Xlib and is a parameter: it gives the lower and the upper case keysym.
\<close>

definition outputMask ::
  "(KeySym \<Rightarrow> KeySym \<times> KeySym) \<Rightarrow> CXWindowsSecondaryScreen \<Rightarrow> KeySym \<Rightarrow> KeyCodeMask \<Rightarrow>
   32 word \<Rightarrow> 32 word" where
  "outputMask XConvertCase st keysym entry maskIn =
     (let maskOut = maskIn AND NOT (m_keyMaskMask entry)
      in if IsKeypadKey keysym \<or> IsPrivateKeypadKey keysym then
           (if m_mask st AND m_numLockMask st \<noteq> 0
            then (maskOut AND NOT (m_keyMask entry)) OR m_numLockMask st
            else (maskOut OR m_keyMask entry) AND NOT (m_numLockMask st))
         else
           (let maskShift0 = m_keyMask entry AND ShiftMask;
                maskShift =
                  (if maskShift0 \<noteq> 0 \<and> m_mask st AND m_capsLockMask st \<noteq> 0 then
                     (case XConvertCase keysym of
                        (lKey, uKey) \<Rightarrow>
                          if lKey \<noteq> uKey then m_capsLockMask st
                          else maskShift0 OR m_capsLockMask st)
                   else maskShift0)
            in (maskOut OR maskShift) OR (m_keyMask entry AND NOT (ShiftMask OR LockMask))))"

text \<open>\<open>findKeyCode\<close> returns the key code and the output mask, or \<open>None\<close> for \<open>false\<close>.\<close>

definition findKeyCode ::
  "(KeySym \<Rightarrow> KeySym \<times> KeySym) \<Rightarrow> CXWindowsSecondaryScreen \<Rightarrow> KeyID \<Rightarrow> 32 word \<Rightarrow>
   (KeyCode \<times> 32 word) option" where
  "findKeyCode XConvertCase st keyId maskIn0 =
     (let keysym0 = idToKeysym keyId
      in if keysym0 = 0 then None
         else
           (let (keysym1, maskIn1) =
                  (if keysym0 = XK_Tab \<and> maskIn0 AND ShiftMask \<noteq> 0
                   then (XK_ISO_Left_Tab, maskIn0 AND NOT ShiftMask)
                   else (keysym0, maskIn0))
            in case m_keycodeMap st keysym1 of
                 Some entry \<Rightarrow>
                   Some (m_keycode_entry entry, outputMask XConvertCase st keysym1 entry maskIn1)
               | None \<Rightarrow>
                   (case backupKeysym keysym1 maskIn1 of
                      None \<Rightarrow> None
                    | Some (keysym2, maskIn2) \<Rightarrow>
                        (case m_keycodeMap st keysym2 of
                           None \<Rightarrow> None
                         | Some entry \<Rightarrow>
                             Some (m_keycode_entry entry,
                                   outputMask XConvertCase st keysym2 entry maskIn2)))))"


section \<open>CXWindowsSecondaryScreen::mapKey\<close>

text \<open>
  \<open>modifierKeys[j]\<close> for modifier \<open>i\<close>: the entry \<open>i * m_keysPerModifier + j\<close> of
  \<open>m_modifierToKeycode\<close>.  The vector has \<open>8 * m_keysPerModifier\<close> entries; a read past
  its end is undefined in the source and gives 0 (no key) here.
\<close>

definition modifierKeys :: "CXWindowsSecondaryScreen \<Rightarrow> nat \<Rightarrow> nat \<Rightarrow> KeyCode" where
  "modifierKeys st i j =
     (if i * m_keysPerModifier st + j < length (m_modifierToKeycode st)
      then m_modifierToKeycode st ! (i * m_keysPerModifier st + j) else 0)"

definition stroke :: "KeyCode \<Rightarrow> bool \<Rightarrow> bool \<Rightarrow> Keystroke" where
  "stroke keycode press repeat = \<lparr>m_keycode = keycode, m_press = press, m_repeat = repeat\<rparr>"

definition isHalfDuplexBit :: "CXWindowsSecondaryScreen \<Rightarrow> 32 word \<Rightarrow> bool" where
  "isHalfDuplexBit st bit_i =
     ((bit_i = m_capsLockMask st \<and> m_capsLockHalfDuplex st) \<or>
      (bit_i = m_numLockMask st \<and> m_numLockHalfDuplex st))"

text \<open>
  The inner loop that releases every key of a modifier that is down: what it appends to
  \<open>keys\<close> and to \<open>undo\<close>, for \<open>j\<close> in the list given.
\<close>

fun releaseModifierKeys ::
  "CXWindowsSecondaryScreen \<Rightarrow> nat \<Rightarrow> nat list \<Rightarrow> Keystroke list \<times> Keystroke list" where
  "releaseModifierKeys st i [] = ([], [])"
| "releaseModifierKeys st i (j # js) =
     (let key = modifierKeys st i j;
          (keys, undo) = releaseModifierKeys st i js
      in if key \<noteq> 0 \<and> m_keys st key
         then (stroke key False False # keys, stroke key True False # undo)
         else (keys, undo))"

text \<open>
  One modifier bit that differs between \<open>outMask\<close> and \<open>m_mask\<close>, with the key
  \<open>modifierKey\<close> chosen for it: what is appended to \<open>keys\<close> and to \<open>undo\<close>.
\<close>

definition adjustModifier ::
  "CXWindowsSecondaryScreen \<Rightarrow> 32 word \<Rightarrow> nat \<Rightarrow> KeyCode \<Rightarrow> Keystroke list \<times> Keystroke list" where
  "adjustModifier st outMask i modifierKey =
     (let bit_i = push_bit i 1
      in if outMask AND bit_i \<noteq> 0 then
           (if bit_i AND m_toggleModifierMask st \<noteq> 0 then
              (if isHalfDuplexBit st bit_i
               then ([stroke modifierKey True False], [stroke modifierKey False False])
               else ([stroke modifierKey True False, stroke modifierKey False False],
                     [stroke modifierKey False False, stroke modifierKey True False]))
            else ([stroke modifierKey True False], [stroke modifierKey False False]))
         else
           (if bit_i AND m_toggleModifierMask st \<noteq> 0 then
              (if isHalfDuplexBit st bit_i
               then ([stroke modifierKey False False], [stroke modifierKey True False])
               else ([stroke modifierKey True False, stroke modifierKey False False],
                     [stroke modifierKey False False, stroke modifierKey True False]))
            else releaseModifierKeys st i [0..<m_keysPerModifier st]))"

text \<open>
  The loop over the modifier bits \<open>i\<close> of the list given, from \<open>keys\<close> and \<open>undo\<close> as
  they are.  The first component is \<open>False\<close> when the loop left \<open>mapKey\<close> by
  \<open>return m_mask\<close>; \<open>keys\<close> is the caller's list, so what was appended to it before
  stays in it.
\<close>

fun adjustModifiers ::
  "CXWindowsSecondaryScreen \<Rightarrow> 32 word \<Rightarrow> nat list \<Rightarrow> Keystroke list \<Rightarrow> Keystroke list \<Rightarrow>
   bool \<times> Keystroke list \<times> Keystroke list" where
  "adjustModifiers st outMask [] keys undo = (True, keys, undo)"
| "adjustModifiers st outMask (i # rest) keys undo =
     (let bit_i = push_bit i 1
      in if outMask AND bit_i \<noteq> m_mask st AND bit_i then
           (let modifierKey =
                  (if modifierKeys st i 0 = 0 then modifierKeys st i 1 else modifierKeys st i 0)
            in if modifierKey = 0 then (False, keys, undo)
               else
                 (case adjustModifier st outMask i modifierKey of
                    (ks, us) \<Rightarrow> adjustModifiers st outMask rest (keys @ ks) (undo @ us)))
         else adjustModifiers st outMask rest keys undo)"

text \<open>The key event itself.\<close>

fun keyEvent :: "KeyCode \<Rightarrow> EKeyAction \<Rightarrow> Keystroke list" where
  "keyEvent keycode kPress = [stroke keycode True False]"
| "keyEvent keycode kRelease = [stroke keycode False False]"
| "keyEvent keycode kRepeat = [stroke keycode False True, stroke keycode True True]"

text \<open>
  The scan of the release branch: is any key of the modifier recorded as down.  The
  comment in the source says "(except keycode)"; the loop tests every key of the modifier.
\<close>

fun anyModifierKeyDown :: "CXWindowsSecondaryScreen \<Rightarrow> nat \<Rightarrow> nat list \<Rightarrow> bool" where
  "anyModifierKeyDown st i [] = False"
| "anyModifierKeyDown st i (j # js) =
     (if modifierKeys st i j \<noteq> 0 \<and> m_keys st (modifierKeys st i j) then True
      else anyModifierKeyDown st i js)"

text \<open>The mask after the key event, for a key that is the modifier \<open>i\<close>.\<close>

definition newMask ::
  "CXWindowsSecondaryScreen \<Rightarrow> bool \<Rightarrow> EKeyAction \<Rightarrow> nat \<Rightarrow> 32 word" where
  "newMask st isHalfDuplex action i =
     (let modifierBit = push_bit i 1
      in if modifierBit AND m_toggleModifierMask st \<noteq> 0 then
           (if isHalfDuplex \<or> action = kRelease then m_mask st XOR modifierBit else m_mask st)
         else if action = kPress then m_mask st OR modifierBit
         else if \<not> anyModifierKeyDown st i [0..<m_keysPerModifier st]
           then m_mask st AND NOT modifierBit
         else m_mask st)"

text \<open>
  \<open>mapKey\<close> returns the keystrokes appended to the caller's empty \<open>keys\<close>, the key
  code if \<open>findKeyCode\<close> set it, and the mask.  Where the key is a half-duplex key and
  not a modifier the source dereferences \<open>m_keycodeToModifier.end()\<close>; the action is
  left as it is then.
\<close>

definition mapKey ::
  "(KeySym \<Rightarrow> KeySym \<times> KeySym) \<Rightarrow> CXWindowsSecondaryScreen \<Rightarrow> KeyID \<Rightarrow> KeyModifierMask \<Rightarrow>
   EKeyAction \<Rightarrow> Keystroke list \<times> KeyCode option \<times> 32 word" where
  "mapKey XConvertCase st keyId mask0 action =
     (let isHalfDuplex = ((keyId = kKeyCapsLock \<and> m_capsLockHalfDuplex st) \<or>
                          (keyId = kKeyNumLock \<and> m_numLockHalfDuplex st))
      in if isHalfDuplex \<and> action \<noteq> kPress then ([], None, m_mask st)
         else
           (case findKeyCode XConvertCase st keyId (maskToX st mask0) of
              None \<Rightarrow> ([], None, m_mask st)
            | Some (keycode, outMask) \<Rightarrow>
                if outMask AND m_modifierMask st \<noteq> outMask then ([], Some keycode, m_mask st)
                else
                  (let index = m_keycodeToModifier st keycode;
                       isModifier = (index \<noteq> None);
                       (ok, keys, undo) =
                         (if outMask \<noteq> m_mask st \<and> \<not> isModifier
                          then adjustModifiers st outMask [0..<8] [] []
                          else (True, [], []))
                   in if \<not> ok then (keys, Some keycode, m_mask st)
                      else
                        (let action1 =
                               (case index of
                                  Some i \<Rightarrow>
                                    if isHalfDuplex \<and> m_mask st AND push_bit i 1 \<noteq> 0
                                    then kRelease else action
                                | None \<Rightarrow> action);
                             keys1 = keys @ keyEvent keycode action1 @ rev undo
                         in case index of
                              Some i \<Rightarrow>
                                if action1 \<noteq> kRepeat
                                then (keys1, Some keycode, newMask st isHalfDuplex action1 i)
                                else (keys1, Some keycode, m_mask st)
                            | None \<Rightarrow> (keys1, Some keycode, m_mask st)))))"

section \<open>CXWindowsSecondaryScreen: replaying keystrokes\<close>

text \<open>
  \<open>doKeystrokes\<close> sends the events to the display with \<open>XTestFakeKeyEvent\<close>: the
  result is the list of the events sent, each a key code and \<open>True\<close> for a press.  A run
  of repeating keystrokes is sent \<open>count\<close> times, which leaves \<open>count\<close> at 0; a later
  run with \<open>count\<close> at 0 never moves on, so the loop is a partial function and
  \<open>None\<close> is the run that never returns.  The function does not assign to any member
  of the screen.
\<close>

definition keyEventOf :: "Keystroke \<Rightarrow> KeyCode \<times> bool" where
  "keyEventOf k = (m_keycode k, m_press k)"

partial_function (option) doKeystrokes_loop ::
  "Keystroke list \<Rightarrow> int \<Rightarrow> (KeyCode \<times> bool) list \<Rightarrow> (KeyCode \<times> bool) list option" where
  "doKeystrokes_loop keys count sent =
     (case keys of
        [] \<Rightarrow> Some sent
      | k # rest \<Rightarrow>
          if m_repeat k then
            (if count > 0 then
               doKeystrokes_loop (dropWhile m_repeat keys) 0
                 (sent @ concat (replicate (nat count) (map keyEventOf (takeWhile m_repeat keys))))
             else doKeystrokes_loop keys count sent)
          else doKeystrokes_loop rest count (sent @ [keyEventOf k]))"

definition doKeystrokes :: "Keystroke list \<Rightarrow> int \<Rightarrow> (KeyCode \<times> bool) list option" where
  "doKeystrokes keys count =
     (if count < 1 \<or> keys = [] then Some [] else doKeystrokes_loop keys count [])"

text \<open>
  \<open>keyDown\<close>, \<open>keyRepeat\<close> and \<open>keyUp\<close>: the events sent to the display and the
  screen as the call leaves it.
\<close>

definition keyDown ::
  "(KeySym \<Rightarrow> KeySym \<times> KeySym) \<Rightarrow> CXWindowsSecondaryScreen \<Rightarrow> KeyID \<Rightarrow> KeyModifierMask \<Rightarrow>
   ((KeyCode \<times> bool) list \<times> CXWindowsSecondaryScreen) option" where
  "keyDown XConvertCase st key mask0 =
     (case mapKey XConvertCase st key mask0 kPress of
        (keys, keycode, mask') \<Rightarrow>
          (let st1 = st\<lparr>m_mask := mask'\<rparr>
           in if keys = [] then Some ([], st1)
              else
                (case doKeystrokes keys 1 of
                   None \<Rightarrow> None
                 | Some sent \<Rightarrow>
                     (case keycode of
                        Some kc \<Rightarrow> Some (sent, st1\<lparr>m_keys := (m_keys st1)(kc := True)\<rparr>)
                      | None \<Rightarrow> Some (sent, st1)))))"

definition keyRepeat ::
  "(KeySym \<Rightarrow> KeySym \<times> KeySym) \<Rightarrow> CXWindowsSecondaryScreen \<Rightarrow> KeyID \<Rightarrow> KeyModifierMask \<Rightarrow>
   int \<Rightarrow> ((KeyCode \<times> bool) list \<times> CXWindowsSecondaryScreen) option" where
  "keyRepeat XConvertCase st key mask0 count =
     (case mapKey XConvertCase st key mask0 kRepeat of
        (keys, keycode, mask') \<Rightarrow>
          (let st1 = st\<lparr>m_mask := mask'\<rparr>
           in if keys = [] then Some ([], st1)
              else
                (case doKeystrokes keys count of
                   None \<Rightarrow> None
                 | Some sent \<Rightarrow> Some (sent, st1))))"

definition keyUp ::
  "(KeySym \<Rightarrow> KeySym \<times> KeySym) \<Rightarrow> CXWindowsSecondaryScreen \<Rightarrow> KeyID \<Rightarrow> KeyModifierMask \<Rightarrow>
   ((KeyCode \<times> bool) list \<times> CXWindowsSecondaryScreen) option" where
  "keyUp XConvertCase st key mask0 =
     (case mapKey XConvertCase st key mask0 kRelease of
        (keys, keycode, mask') \<Rightarrow>
          (let st1 = st\<lparr>m_mask := mask'\<rparr>
           in if keys = [] then Some ([], st1)
              else
                (case doKeystrokes keys 1 of
                   None \<Rightarrow> None
                 | Some sent \<Rightarrow>
                     (case keycode of
                        Some kc \<Rightarrow> Some (sent, st1\<lparr>m_keys := (m_keys st1)(kc := False)\<rparr>)
                      | None \<Rightarrow> Some (sent, st1)))))"


declare readRequest_skip.simps [code]

declare doKeystrokes_loop.simps [code]

lemma doKeystrokes_loop_plain:
  "\<forall>k \<in> set keys. \<not> m_repeat k \<Longrightarrow>
   doKeystrokes_loop keys count sent = Some (sent @ map keyEventOf keys)"
proof (induction keys arbitrary: sent)
  case Nil
  show ?case by (subst doKeystrokes_loop.simps) simp
next
  case (Cons k keys)
  then show ?case by (subst doKeystrokes_loop.simps) simp
qed

text \<open>
  Every list \<open>mapKey\<close> builds has its repeating keystrokes, if any, in one run, so the
  replay of it returns.
\<close>

lemma releaseModifierKeys_plain:
  "releaseModifierKeys st i js = (ks, us) \<Longrightarrow>
   (\<forall>k \<in> set ks. \<not> m_repeat k) \<and> (\<forall>k \<in> set us. \<not> m_repeat k)"
proof (induction js arbitrary: ks us)
  case Nil
  then show ?case by simp
next
  case (Cons j js)
  obtain ks' us' where r: "releaseModifierKeys st i js = (ks', us')"
    by (cases "releaseModifierKeys st i js")
  from Cons.IH [OF r] Cons.prems r show ?case
    by (auto simp: Let_def stroke_def split: if_splits)
qed

lemma adjustModifier_plain:
  "adjustModifier st outMask i modifierKey = (ks, us) \<Longrightarrow>
   (\<forall>k \<in> set ks. \<not> m_repeat k) \<and> (\<forall>k \<in> set us. \<not> m_repeat k)"
proof (cases "outMask AND push_bit i 1 = 0 \<and> push_bit i 1 AND m_toggleModifierMask st = 0")
  case True
  assume "adjustModifier st outMask i modifierKey = (ks, us)"
  with True have "releaseModifierKeys st i [0..<m_keysPerModifier st] = (ks, us)"
    by (simp add: adjustModifier_def Let_def)
  then show ?thesis by (rule releaseModifierKeys_plain)
next
  case False
  assume "adjustModifier st outMask i modifierKey = (ks, us)"
  with False show ?thesis
    by (auto simp: adjustModifier_def Let_def stroke_def split: if_splits)
qed

lemma adjustModifiers_plain:
  "adjustModifiers st outMask bits keys undo = (ok, keys', undo') \<Longrightarrow>
   \<forall>k \<in> set keys. \<not> m_repeat k \<Longrightarrow> \<forall>k \<in> set undo. \<not> m_repeat k \<Longrightarrow>
   (\<forall>k \<in> set keys'. \<not> m_repeat k) \<and> (\<forall>k \<in> set undo'. \<not> m_repeat k)"
proof (induction bits arbitrary: keys undo)
  case Nil
  then show ?case by simp
next
  case (Cons i rest)
  let ?mk = "if modifierKeys st i 0 = 0 then modifierKeys st i 1 else modifierKeys st i 0"
  show ?case
  proof (cases "outMask AND push_bit i 1 \<noteq> m_mask st AND push_bit i 1")
    case False
    with Cons.prems(1) have "adjustModifiers st outMask rest keys undo = (ok, keys', undo')"
      by (simp add: Let_def)
    from Cons.IH [OF this Cons.prems(2) Cons.prems(3)] show ?thesis .
  next
    case True
    show ?thesis
    proof (cases "?mk = 0")
      case z: True
      with True Cons.prems(1) have "keys' = keys" "undo' = undo"
        by (simp_all add: Let_def)
      with Cons.prems(2) Cons.prems(3) show ?thesis by simp
    next
      case nz: False
      obtain ks us where a: "adjustModifier st outMask i ?mk = (ks, us)"
        by (cases "adjustModifier st outMask i ?mk")
      with True nz Cons.prems(1)
      have r: "adjustModifiers st outMask rest (keys @ ks) (undo @ us) = (ok, keys', undo')"
        by (simp add: Let_def)
      from adjustModifier_plain [OF a] Cons.prems(2) Cons.prems(3)
      have "\<forall>k \<in> set (keys @ ks). \<not> m_repeat k" "\<forall>k \<in> set (undo @ us). \<not> m_repeat k"
        by auto
      from Cons.IH [OF r this] show ?thesis .
    qed
  qed
qed

lemma doKeystrokes_loop_prefix:
  "\<forall>k \<in> set pre. \<not> m_repeat k \<Longrightarrow>
   doKeystrokes_loop (pre @ keys) count sent =
     doKeystrokes_loop keys count (sent @ map keyEventOf pre)"
proof (induction pre arbitrary: sent)
  case Nil
  show ?case by simp
next
  case (Cons k pre)
  then show ?case by (subst doKeystrokes_loop.simps) simp
qed

lemma dropWhile_plain: "\<forall>k \<in> set post. \<not> m_repeat k \<Longrightarrow> dropWhile m_repeat post = post"
  by (cases post) simp_all

lemma takeWhile_plain: "\<forall>k \<in> set post. \<not> m_repeat k \<Longrightarrow> takeWhile m_repeat post = []"
  by (cases post) simp_all

lemma doKeystrokes_loop_keyEvent:
  assumes "\<forall>k \<in> set pre. \<not> m_repeat k" and "\<forall>k \<in> set post. \<not> m_repeat k"
    and "0 < count"
  shows "\<exists>sent'. doKeystrokes_loop (pre @ keyEvent keycode action @ post) count sent = Some sent'"
proof (cases "action = kRepeat")
  case False
  then have "\<forall>k \<in> set (keyEvent keycode action). \<not> m_repeat k"
    by (cases action) (simp_all add: stroke_def)
  with assms have "\<forall>k \<in> set (pre @ keyEvent keycode action @ post). \<not> m_repeat k"
    by auto
  from doKeystrokes_loop_plain [OF this] show ?thesis by blast
next
  case True
  let ?run = "[stroke keycode False True, stroke keycode True True]"
  have d: "dropWhile m_repeat (?run @ post) = post"
    using dropWhile_plain [OF assms(2)] by (simp add: stroke_def)
  have "doKeystrokes_loop (?run @ post) count (sent @ map keyEventOf pre) =
      doKeystrokes_loop post 0
        ((sent @ map keyEventOf pre) @
         concat (replicate (nat count) (map keyEventOf (takeWhile m_repeat (?run @ post)))))"
    using assms(3) d by (subst doKeystrokes_loop.simps) (simp add: stroke_def)
  also have "\<dots> = Some (((sent @ map keyEventOf pre) @
         concat (replicate (nat count) (map keyEventOf (takeWhile m_repeat (?run @ post))))) @
         map keyEventOf post)"
    by (rule doKeystrokes_loop_plain [OF assms(2)])
  finally show ?thesis
    using True doKeystrokes_loop_prefix [OF assms(1), of "?run @ post" count sent]
    by simp
qed

lemma mapKey_keys:
  assumes "mapKey XConvertCase st keyId mask0 action = (keys, keycode, mask')"
  shows "\<exists>ks kc action1 undo.
           (\<forall>k \<in> set ks. \<not> m_repeat k) \<and> (\<forall>k \<in> set undo. \<not> m_repeat k) \<and>
           (keys = ks \<or> keys = ks @ keyEvent kc action1 @ rev undo)"
proof -
  let ?hd = "(keyId = kKeyCapsLock \<and> m_capsLockHalfDuplex st) \<or>
             (keyId = kKeyNumLock \<and> m_numLockHalfDuplex st)"
  have empty: ?thesis if "keys = []"
    using that by (auto intro!: exI [of _ "[]"])
  show ?thesis
  proof (cases "?hd \<and> action \<noteq> kPress")
    case True
    with assms have "keys = []"
      by (simp add: mapKey_def Let_def)
    then show ?thesis by (rule empty)
  next
    case nh: False
    show ?thesis
    proof (cases "findKeyCode XConvertCase st keyId (maskToX st mask0)")
      case None
      with assms nh have "keys = []"
        by (simp add: mapKey_def Let_def)
      then show ?thesis by (rule empty)
    next
      case (Some found)
      obtain kc outMask where found: "found = (kc, outMask)"
        by (cases found)
      show ?thesis
      proof (cases "outMask AND m_modifierMask st \<noteq> outMask")
        case True
        with assms nh Some found have "keys = []"
          by (simp add: mapKey_def Let_def)
        then show ?thesis by (rule empty)
      next
        case nm: False
        let ?adj = "if outMask \<noteq> m_mask st \<and> \<not> m_keycodeToModifier st kc \<noteq> None
             then adjustModifiers st outMask [0..<8] [] [] else (True, [], [])"
        obtain ok ks undo where a: "?adj = (ok, ks, undo)"
          by (cases ?adj)
        have plain: "(\<forall>k \<in> set ks. \<not> m_repeat k) \<and> (\<forall>k \<in> set undo. \<not> m_repeat k)"
        proof (cases "outMask \<noteq> m_mask st \<and> \<not> m_keycodeToModifier st kc \<noteq> None")
          case True
          with a have "adjustModifiers st outMask [0..<8] [] [] = (ok, ks, undo)"
            by simp
          from adjustModifiers_plain [OF this] show ?thesis by simp
        next
          case False
          with a show ?thesis by auto
        qed
        let ?action1 = "case m_keycodeToModifier st kc of
            Some i \<Rightarrow> if ?hd \<and> m_mask st AND push_bit i 1 \<noteq> 0 then kRelease else action
          | None \<Rightarrow> action"
        from assms nh Some found nm a
        have "keys = ks \<or> keys = ks @ keyEvent kc ?action1 @ rev undo"
          by (auto simp: mapKey_def Let_def split: if_splits option.splits)
        with plain show ?thesis by blast
      qed
    qed
  qed
qed

lemma mapKey_doKeystrokes:
  assumes "mapKey XConvertCase st keyId mask0 action = (keys, keycode, mask')"
  shows "\<exists>sent. doKeystrokes keys count = Some sent"
proof (cases "count < 1 \<or> keys = []")
  case True
  then show ?thesis by (simp add: doKeystrokes_def)
next
  case False
  then have pos: "0 < count" and ne: "keys \<noteq> []" by simp_all
  from mapKey_keys [OF assms] obtain ks kc action1 undo where
    p1: "\<forall>k \<in> set ks. \<not> m_repeat k" and p2: "\<forall>k \<in> set undo. \<not> m_repeat k"
    and k: "keys = ks \<or> keys = ks @ keyEvent kc action1 @ rev undo"
    by blast
  from p2 have p3: "\<forall>k \<in> set (rev undo). \<not> m_repeat k"
    by simp
  from k show ?thesis
  proof
    assume "keys = ks"
    with p1 doKeystrokes_loop_plain [of keys count "[]"] pos ne show ?thesis
      by (simp add: doKeystrokes_def)
  next
    assume "keys = ks @ keyEvent kc action1 @ rev undo"
    with doKeystrokes_loop_keyEvent [OF p1 p3 pos, of kc action1 "[]"] pos ne show ?thesis
      by (simp add: doKeystrokes_def)
  qed
qed

text \<open>
  The returns of \<open>mapKey\<close> before the modifier loop leave the list empty, and a repeat
  returns the mask as it was.
\<close>

lemma mapKey_no_keycode:
  "findKeyCode XConvertCase st keyId (maskToX st mask0) = None \<Longrightarrow>
   mapKey XConvertCase st keyId mask0 action = ([], None, m_mask st)"
  by (simp add: mapKey_def Let_def)

lemma mapKey_mask_not_available:
  assumes "findKeyCode XConvertCase st keyId (maskToX st mask0) = Some (keycode, outMask)"
    and "outMask AND m_modifierMask st \<noteq> outMask"
  shows "fst (mapKey XConvertCase st keyId mask0 action) = [] \<and>
         snd (snd (mapKey XConvertCase st keyId mask0 action)) = m_mask st"
  using assms by (simp add: mapKey_def Let_def)

lemma mapKey_repeat_mask:
  "snd (snd (mapKey XConvertCase st keyId mask0 kRepeat)) = m_mask st"
proof (cases "findKeyCode XConvertCase st keyId (maskToX st mask0)")
  case None
  then show ?thesis by (simp add: mapKey_no_keycode)
next
  case (Some found)
  obtain kc outMask where found: "found = (kc, outMask)"
    by (cases found)
  let ?adj = "if outMask \<noteq> m_mask st \<and> \<not> m_keycodeToModifier st kc \<noteq> None
       then adjustModifiers st outMask [0..<8] [] [] else (True, [], [])"
  obtain ok ks undo where a: "?adj = (ok, ks, undo)"
    by (cases ?adj)
  from Some found a show ?thesis
    by (auto simp: mapKey_def Let_def split: option.splits)
qed

text \<open>
  The mask \<open>mapKey\<close> returns for a key that is a modifier and not half-duplex: a toggle
  bit flips on release, a level bit is set on press and cleared on release when no key of
  the modifier, the released one included, is recorded as down.
\<close>

lemma mapKey_modifier_mask:
  assumes "findKeyCode XConvertCase st keyId (maskToX st mask0) = Some (keycode, outMask)"
    and "outMask AND m_modifierMask st = outMask"
    and "m_keycodeToModifier st keycode = Some i"
    and "\<not> m_capsLockHalfDuplex st" and "\<not> m_numLockHalfDuplex st"
  shows "snd (snd (mapKey XConvertCase st keyId mask0 action)) =
           (if action = kRepeat then m_mask st
            else if push_bit i 1 AND m_toggleModifierMask st \<noteq> 0 then
              (if action = kRelease then m_mask st XOR push_bit i 1 else m_mask st)
            else if action = kPress then m_mask st OR push_bit i 1
            else if \<not> anyModifierKeyDown st i [0..<m_keysPerModifier st]
              then m_mask st AND NOT (push_bit i 1)
            else m_mask st)"
  using assms by (simp add: mapKey_def Let_def newMask_def)

section \<open>Claims about the key synthesizer\<close>

text \<open>
  A screen whose Shift modifier has the key codes 50 and 62 and whose other modifiers have
  none, with the keysyms Shift_L on key code 50 and \<open>a\<close>, \<open>A\<close> on key code 38; no key
  is down and no modifier is active.
\<close>

definition shiftScreen :: CXWindowsSecondaryScreen where
  "shiftScreen =
     \<lparr>m_numLockHalfDuplex = False, m_capsLockHalfDuplex = False,
      m_keys = (\<lambda>k. False), m_mask = 0, m_modifierMask = 0x01, m_toggleModifierMask = 0,
      m_numLockMask = 0, m_capsLockMask = 0, m_scrollLockMask = 0, m_keysPerModifier = 2,
      m_modifierToKeycode = [50, 62, 0, 0, 0, 0, 0, 0, 0, 0, 0, 0, 0, 0, 0, 0],
      m_keycodeToModifier = [50 \<mapsto> 0, 62 \<mapsto> 0, 0 \<mapsto> 1],
      m_keycodeMap =
        [0xFFE1 \<mapsto> \<lparr>m_keycode_entry = 50, m_keyMask = 0, m_keyMaskMask = 0\<rparr>,
         0x41 \<mapsto> \<lparr>m_keycode_entry = 38, m_keyMask = 0x01, m_keyMaskMask = 0x03\<rparr>,
         0x61 \<mapsto> \<lparr>m_keycode_entry = 38, m_keyMask = 0, m_keyMaskMask = 0x03\<rparr>]\<rparr>"

text \<open>
  Xlib's \<open>XConvertCase\<close> on the ASCII letters, for the runs below: the lower and the
  upper case keysym of a letter, the keysym itself twice otherwise.
\<close>

definition XConvertCase_ascii :: "KeySym \<Rightarrow> KeySym \<times> KeySym" where
  "XConvertCase_ascii keysym =
     (if 0x41 \<le> keysym \<and> keysym \<le> 0x5A then (keysym + 0x20, keysym)
      else if 0x61 \<le> keysym \<and> keysym \<le> 0x7A then (keysym, keysym - 0x20)
      else (keysym, keysym))"

text \<open>
  C5, which the code does not meet.  The claim: on the release of a level modifier key the bit is cleared
  exactly when no other key code of that modifier is recorded as down.  The scan in
  \<open>mapKey\<close> does not leave out the key code being released (its comment says it
  does), and \<open>keyUp\<close> marks that key code as up only after \<open>mapKey\<close> returned.  On
  the screen above, where Shift_L (key id 0xEFE1, key code 50) was pressed and key code 62
  is up, the release of Shift_L returns the mask with the Shift bit still set.
\<close>

theorem C5_release_keeps_bit:
  "mapKey XConvertCase (shiftScreen\<lparr>m_mask := 0x01, m_keys := (m_keys shiftScreen)(50 := True)\<rparr>)
     0xEFE1 0 kRelease =
   ([\<lparr>m_keycode = 50, m_press = False, m_repeat = False\<rparr>], Some 50, 0x01)"
  by code_simp

text \<open>
  C8, which the code does not meet.  The claim: when a needed modifier has no key code, \<open>mapKey\<close> emits an
  empty keystroke list and returns the mask unchanged.  The loop over the modifier bits
  returns from inside, after the keystrokes for lower bits were appended to the caller's
  list.  On the screen above with the Mod1 bit (0x08) set in \<open>m_mask\<close>, which no key
  code implements, the key \<open>A\<close> with Shift needs Shift set and Mod1 cleared: the press
  of key code 50 for Shift is in the list when the missing key for Mod1 ends the call.
  \<open>keyDown\<close> finds the list not empty, sends that press and records key code 38 as down.
\<close>

theorem C8_keystrokes_left_in_list:
  "mapKey XConvertCase (shiftScreen\<lparr>m_mask := 0x08\<rparr>) 0x41 KeyModifierShift kPress =
     ([\<lparr>m_keycode = 50, m_press = True, m_repeat = False\<rparr>], Some 38, 0x08) \<and>
   keyDown XConvertCase (shiftScreen\<lparr>m_mask := 0x08\<rparr>) 0x41 KeyModifierShift =
     Some ([(50, True)],
       shiftScreen\<lparr>m_mask := 0x08, m_keys := (m_keys shiftScreen)(38 := True)\<rparr>)"
proof
  show m: "mapKey XConvertCase (shiftScreen\<lparr>m_mask := 0x08\<rparr>) 0x41 KeyModifierShift kPress =
     ([\<lparr>m_keycode = 50, m_press = True, m_repeat = False\<rparr>], Some 38, 0x08)"
    by code_simp
  have d: "doKeystrokes [\<lparr>m_keycode = 50, m_press = True, m_repeat = False\<rparr>] 1 =
      Some [(50, True)]"
    by (simp add: doKeystrokes_def doKeystrokes_loop_plain keyEventOf_def)
  show "keyDown XConvertCase (shiftScreen\<lparr>m_mask := 0x08\<rparr>) 0x41 KeyModifierShift =
     Some ([(50, True)],
       shiftScreen\<lparr>m_mask := 0x08, m_keys := (m_keys shiftScreen)(38 := True)\<rparr>)"
    by (simp add: keyDown_def m d)
qed

text \<open>
  C7, which holds in an amended form.  The claim: every keystroke \<open>doKeystrokes\<close> emits updates the entry
  of its key code in the shadow table.  \<open>doKeystrokes\<close> only sends events; the table
  is written by \<open>keyDown\<close> and \<open>keyUp\<close>, for the one key code \<open>mapKey\<close> returned.
  A repeat of the key \<open>a\<close> on the screen above sends a release and a press of key code
  38 and leaves the screen, and the entry of key code 38, as they were: up.
\<close>

theorem C7_repeat_leaves_table:
  "keyRepeat XConvertCase_ascii shiftScreen 0x61 0 1 =
     Some ([(38, False), (38, True)], shiftScreen) \<and>
   m_keys shiftScreen 38 = False"
proof
  have m: "mapKey XConvertCase_ascii shiftScreen 0x61 0 kRepeat =
     ([\<lparr>m_keycode = 38, m_press = False, m_repeat = True\<rparr>,
       \<lparr>m_keycode = 38, m_press = True, m_repeat = True\<rparr>], Some 38, 0)"
    by code_simp
  have d: "doKeystrokes [\<lparr>m_keycode = 38, m_press = False, m_repeat = True\<rparr>,
       \<lparr>m_keycode = 38, m_press = True, m_repeat = True\<rparr>] 1 =
      Some [(38, False), (38, True)]"
    by code_simp
  show "keyRepeat XConvertCase_ascii shiftScreen 0x61 0 1 =
      Some ([(38, False), (38, True)], shiftScreen)"
    by (simp add: keyRepeat_def m d) (simp add: shiftScreen_def)
  show "m_keys shiftScreen 38 = False"
    by (simp add: shiftScreen_def)
qed



text \<open>
  C7 as amended: replaying keystrokes writes no entry of the shadow table.  Every
  \<open>keyDown\<close>, \<open>keyUp\<close> and \<open>keyRepeat\<close> returns, having replayed the whole list
  \<open>mapKey\<close> built.  A \<open>keyDown\<close> or \<open>keyUp\<close> whose list is not empty then sets
  the entry of the key code \<open>mapKey\<close> returned (down for \<open>keyDown\<close>, up for
  \<open>keyUp\<close>) and no other entry, whatever modifier and undo keystrokes were sent;
  \<open>keyRepeat\<close> changes no entry.
\<close>

theorem C7_table_written_by_keyDown_keyUp:
  "(\<exists>sent st'.
      keyDown XConvertCase st key mask0 = Some (sent, st') \<and>
      (case mapKey XConvertCase st key mask0 kPress of
         (keys, keycode, mask') \<Rightarrow>
           doKeystrokes keys 1 = Some sent \<and>
           m_keys st' =
             (case keycode of
                Some kc \<Rightarrow> if keys = [] then m_keys st else (m_keys st)(kc := True)
              | None \<Rightarrow> m_keys st))) \<and>
   (\<exists>sent st'.
      keyUp XConvertCase st key mask0 = Some (sent, st') \<and>
      (case mapKey XConvertCase st key mask0 kRelease of
         (keys, keycode, mask') \<Rightarrow>
           doKeystrokes keys 1 = Some sent \<and>
           m_keys st' =
             (case keycode of
                Some kc \<Rightarrow> if keys = [] then m_keys st else (m_keys st)(kc := False)
              | None \<Rightarrow> m_keys st))) \<and>
   (\<exists>sent st'.
      keyRepeat XConvertCase st key mask0 count = Some (sent, st') \<and>
      (case mapKey XConvertCase st key mask0 kRepeat of
         (keys, keycode, mask') \<Rightarrow> doKeystrokes keys count = Some sent) \<and>
      m_keys st' = m_keys st)"
proof (intro conjI)
  obtain keys keycode mask' where
    m: "mapKey XConvertCase st key mask0 kPress = (keys, keycode, mask')"
    by (cases "mapKey XConvertCase st key mask0 kPress")
  from mapKey_doKeystrokes [OF m, of 1] obtain sent where d: "doKeystrokes keys 1 = Some sent"
    by blast
  have e: "sent = []" if "keys = []"
    using that d by (simp add: doKeystrokes_def)
  show "\<exists>sent st'.
      keyDown XConvertCase st key mask0 = Some (sent, st') \<and>
      (case mapKey XConvertCase st key mask0 kPress of
         (keys, keycode, mask') \<Rightarrow>
           doKeystrokes keys 1 = Some sent \<and>
           m_keys st' =
             (case keycode of
                Some kc \<Rightarrow> if keys = [] then m_keys st else (m_keys st)(kc := True)
              | None \<Rightarrow> m_keys st))"
    using d e by (cases keycode; cases "keys = []") (simp_all add: keyDown_def m)
next
  obtain keys keycode mask' where
    m: "mapKey XConvertCase st key mask0 kRelease = (keys, keycode, mask')"
    by (cases "mapKey XConvertCase st key mask0 kRelease")
  from mapKey_doKeystrokes [OF m, of 1] obtain sent where d: "doKeystrokes keys 1 = Some sent"
    by blast
  have e: "sent = []" if "keys = []"
    using that d by (simp add: doKeystrokes_def)
  show "\<exists>sent st'.
      keyUp XConvertCase st key mask0 = Some (sent, st') \<and>
      (case mapKey XConvertCase st key mask0 kRelease of
         (keys, keycode, mask') \<Rightarrow>
           doKeystrokes keys 1 = Some sent \<and>
           m_keys st' =
             (case keycode of
                Some kc \<Rightarrow> if keys = [] then m_keys st else (m_keys st)(kc := False)
              | None \<Rightarrow> m_keys st))"
    using d e by (cases keycode; cases "keys = []") (simp_all add: keyUp_def m)
next
  obtain keys keycode mask' where
    m: "mapKey XConvertCase st key mask0 kRepeat = (keys, keycode, mask')"
    by (cases "mapKey XConvertCase st key mask0 kRepeat")
  from mapKey_doKeystrokes [OF m, of count] obtain sent where
    d: "doKeystrokes keys count = Some sent"
    by blast
  have e: "sent = []" if "keys = []"
    using that d by (simp add: doKeystrokes_def)
  show "\<exists>sent st'.
      keyRepeat XConvertCase st key mask0 count = Some (sent, st') \<and>
      (case mapKey XConvertCase st key mask0 kRepeat of
         (keys, keycode, mask') \<Rightarrow> doKeystrokes keys count = Some sent) \<and>
      m_keys st' = m_keys st"
    using d e by (cases "keys = []") (simp_all add: keyRepeat_def m)
qed

theorem C7_table_written_witness:
  "keyDown XConvertCase_ascii shiftScreen 0x41 KeyModifierShift =
     Some ([(50, True), (38, True), (50, False)],
       shiftScreen\<lparr>m_keys := (m_keys shiftScreen)(38 := True)\<rparr>) \<and>
   keyUp XConvertCase_ascii (shiftScreen\<lparr>m_keys := (m_keys shiftScreen)(38 := True)\<rparr>)
       0x41 KeyModifierShift =
     Some ([(50, True), (38, False), (50, False)],
       shiftScreen\<lparr>m_keys := (m_keys shiftScreen)(38 := True, 38 := False)\<rparr>) \<and>
   keyRepeat XConvertCase_ascii (shiftScreen\<lparr>m_keys := (m_keys shiftScreen)(38 := True)\<rparr>)
       0x41 KeyModifierShift 2 =
     Some ([(50, True), (38, False), (38, True), (38, False), (38, True), (50, False)],
       shiftScreen\<lparr>m_keys := (m_keys shiftScreen)(38 := True)\<rparr>)"
  (is "keyDown _ _ _ _ = Some (?e1, ?down) \<and> keyUp _ _ _ _ = Some (?e2, ?up) \<and>
       keyRepeat _ _ _ _ _ = Some (?e3, _)")
proof -
  let ?X = XConvertCase_ascii
  have m1: "mapKey ?X shiftScreen 0x41 KeyModifierShift kPress =
      ([stroke 50 True False, stroke 38 True False, stroke 50 False False], Some 38, 0)"
    by code_simp
  have m2: "mapKey ?X ?down 0x41 KeyModifierShift kRelease =
      ([stroke 50 True False, stroke 38 False False, stroke 50 False False], Some 38, 0)"
    by code_simp
  have m3: "mapKey ?X ?down 0x41 KeyModifierShift kRepeat =
      ([stroke 50 True False, stroke 38 False True, stroke 38 True True, stroke 50 False False],
       Some 38, 0)"
    by code_simp
  have d1: "doKeystrokes [stroke 50 True False, stroke 38 True False, stroke 50 False False] 1 =
      Some ?e1"
    by code_simp
  have d2: "doKeystrokes [stroke 50 True False, stroke 38 False False, stroke 50 False False] 1 =
      Some ?e2"
    by code_simp
  have d3: "doKeystrokes
      [stroke 50 True False, stroke 38 False True, stroke 38 True True, stroke 50 False False] 2 =
      Some ?e3"
    by code_simp
  have z: "shiftScreen\<lparr>m_mask := 0\<rparr> = shiftScreen"
    by (simp add: shiftScreen_def)
  have k1: "keyDown ?X shiftScreen 0x41 KeyModifierShift = Some (?e1, ?down)"
    by (simp add: keyDown_def m1 d1 z)
  have k2: "keyUp ?X ?down 0x41 KeyModifierShift = Some (?e2, ?up)"
    by (simp add: keyUp_def m2 d2) (simp add: shiftScreen_def)
  have k3: "keyRepeat ?X ?down 0x41 KeyModifierShift 2 = Some (?e3, ?down)"
    by (simp add: keyRepeat_def m3 d3) (simp add: shiftScreen_def)
  from C7_table_written_by_keyDown_keyUp [of ?X shiftScreen "0x41" KeyModifierShift 2]
    C7_table_written_by_keyDown_keyUp [of ?X ?down "0x41" KeyModifierShift 2]
    k1 k2 k3
  show ?thesis by simp
qed

end
